theory Spec2Isabelle
  imports Complex_Main "HOL-Library.Char_ord" "HOL-Library.List_Lexorder"
begin

section \<open>Values\<close>

text \<open>
  The backend (\<^verbatim>\<open>src/backend/app.py\<close>) is a Flask application over two module globals,
  \<^verbatim>\<open>transactions\<close> and \<^verbatim>\<open>cache\<close>. This theory embeds its request handlers as functions
  over an explicit store.

  A Python \<^verbatim>\<open>float\<close> is modelled by \<open>pyfloat\<close>: a finite value is an exact rational (the
  rounding of binary arithmetic and overflow of a finite sum are not modelled), and the
  three special values that \<^verbatim>\<open>float(...)\<close> can return from input are kept, because the
  comparisons of the code treat them differently from numbers.
\<close>

datatype pyfloat = Fin rat | PInf | NInf | NaN

datatype py_error =
  TypeError | ValueError | KeyError | OverflowError | ZeroDivisionError | BadRequest

text \<open>
  What \<^verbatim>\<open>request.get_json()\<close> returns: a JSON value as a Python object. A \<^verbatim>\<open>dict\<close> is an
  association list in insertion order (its keys are distinct in Python).
\<close>

datatype json =
    JNull
  | JBool bool
  | JInt int
  | JFloat pyfloat
  | JStr string
  | JList "json list"
  | JObj "(string \<times> json) list"

subsection \<open>Float comparison and arithmetic\<close>

text \<open>\<^verbatim>\<open>a < b\<close> on floats: false as soon as one side is NaN.\<close>

fun flt :: "pyfloat \<Rightarrow> pyfloat \<Rightarrow> bool" where
  "flt NaN _ = False"
| "flt _ NaN = False"
| "flt (Fin a) (Fin b) = (a < b)"
| "flt (Fin _) PInf = True"
| "flt (Fin _) NInf = False"
| "flt PInf _ = False"
| "flt NInf NInf = False"
| "flt NInf _ = True"

text \<open>\<^verbatim>\<open>a > b\<close> and \<^verbatim>\<open>a >= b\<close>.\<close>

definition fgt :: "pyfloat \<Rightarrow> pyfloat \<Rightarrow> bool" where
  "fgt a b = flt b a"

fun fge :: "pyfloat \<Rightarrow> pyfloat \<Rightarrow> bool" where
  "fge NaN _ = False"
| "fge _ NaN = False"
| "fge a b = (\<not> flt a b)"

fun fadd :: "pyfloat \<Rightarrow> pyfloat \<Rightarrow> pyfloat" where
  "fadd NaN _ = NaN"
| "fadd _ NaN = NaN"
| "fadd (Fin a) (Fin b) = Fin (a + b)"
| "fadd PInf NInf = NaN"
| "fadd NInf PInf = NaN"
| "fadd PInf _ = PInf"
| "fadd NInf _ = NInf"
| "fadd (Fin _) PInf = PInf"
| "fadd (Fin _) NInf = NInf"

fun fneg :: "pyfloat \<Rightarrow> pyfloat" where
  "fneg (Fin a) = Fin (- a)"
| "fneg PInf = NInf"
| "fneg NInf = PInf"
| "fneg NaN = NaN"

text \<open>An infinity times a value of the given sign (zero gives NaN).\<close>

definition inf_times :: "bool \<Rightarrow> rat \<Rightarrow> pyfloat" where
  "inf_times positive b =
     (if b = 0 then NaN else if (0 < b) = positive then PInf else NInf)"

fun fmul :: "pyfloat \<Rightarrow> pyfloat \<Rightarrow> pyfloat" where
  "fmul NaN _ = NaN"
| "fmul _ NaN = NaN"
| "fmul (Fin a) (Fin b) = Fin (a * b)"
| "fmul PInf (Fin b) = inf_times True b"
| "fmul NInf (Fin b) = inf_times False b"
| "fmul (Fin a) PInf = inf_times True a"
| "fmul (Fin a) NInf = inf_times False a"
| "fmul PInf PInf = PInf"
| "fmul NInf NInf = PInf"
| "fmul PInf NInf = NInf"
| "fmul NInf PInf = NInf"

text \<open>
  \<^verbatim>\<open>a / b\<close> on floats raises \<^verbatim>\<open>ZeroDivisionError\<close> when the divisor is zero, whatever
  the dividend is; every other case returns a float.
\<close>

fun fdiv :: "pyfloat \<Rightarrow> pyfloat \<Rightarrow> py_error + pyfloat" where
  "fdiv a (Fin b) =
     (if b = 0 then Inl ZeroDivisionError
      else case a of
          Fin x \<Rightarrow> Inr (Fin (x / b))
        | PInf \<Rightarrow> Inr (inf_times True b)
        | NInf \<Rightarrow> Inr (inf_times False b)
        | NaN \<Rightarrow> Inr NaN)"
| "fdiv NaN _ = Inr NaN"
| "fdiv _ NaN = Inr NaN"
| "fdiv (Fin _) _ = Inr (Fin 0)"
| "fdiv _ _ = Inr NaN"

text \<open>The float of a list length or of a counter (\<^verbatim>\<open>total / count\<close> converts the int).\<close>

definition float_of_nat :: "nat \<Rightarrow> pyfloat" where
  "float_of_nat n = Fin (of_nat n)"

text \<open>
  \<^verbatim>\<open>round(x, 2)\<close>: to the nearest multiple of 1/100, a tie going to the even neighbour;
  infinities and NaN are returned as they are.
\<close>

definition round_half_even :: "rat \<Rightarrow> int" where
  "round_half_even y =
     (let f = \<lfloor>y\<rfloor>; d = y - of_int f
      in if d < 1 / 2 then f
         else if 1 / 2 < d then f + 1
         else if even f then f else f + 1)"

fun round2 :: "pyfloat \<Rightarrow> pyfloat" where
  "round2 (Fin x) = Fin (of_int (round_half_even (x * 100)) / 100)"
| "round2 v = v"

text \<open>
  \<^verbatim>\<open>sum(...)\<close> starts from the int \<open>0\<close> and adds from the left; over floats the result is
  a float as soon as the sequence is not empty.
\<close>

definition fsum :: "pyfloat list \<Rightarrow> pyfloat" where
  "fsum xs = foldl fadd (Fin 0) xs"

text \<open>
  \<^verbatim>\<open>max(items, key=f)\<close> and \<^verbatim>\<open>min(items, key=f)\<close> keep the first item and replace it only
  by a later one whose key is strictly better: \<open>better\<close> is \<^verbatim>\<open>>\<close> for \<^verbatim>\<open>max\<close> and \<^verbatim>\<open><\<close> for
  \<^verbatim>\<open>min\<close>. On an empty sequence both raise \<^verbatim>\<open>ValueError\<close>.
\<close>

fun py_best :: "('k \<Rightarrow> 'k \<Rightarrow> bool) \<Rightarrow> ('a \<Rightarrow> 'k) \<Rightarrow> 'a \<Rightarrow> 'a list \<Rightarrow> 'a" where
  "py_best better f cur [] = cur"
| "py_best better f cur (x # xs) =
     py_best better f (if better (f x) (f cur) then x else cur) xs"

definition py_max_key :: "('k \<Rightarrow> 'k \<Rightarrow> bool) \<Rightarrow> ('a \<Rightarrow> 'k) \<Rightarrow> 'a list \<Rightarrow> py_error + 'a" where
  "py_max_key gt f xs = (case xs of [] \<Rightarrow> Inl ValueError | x # r \<Rightarrow> Inr (py_best gt f x r))"

definition py_min_key :: "('k \<Rightarrow> 'k \<Rightarrow> bool) \<Rightarrow> ('a \<Rightarrow> 'k) \<Rightarrow> 'a list \<Rightarrow> py_error + 'a" where
  "py_min_key lt f xs = (case xs of [] \<Rightarrow> Inl ValueError | x # r \<Rightarrow> Inr (py_best lt f x r))"

definition py_max :: "pyfloat list \<Rightarrow> py_error + pyfloat" where
  "py_max xs = py_max_key fgt (\<lambda>a. a) xs"

definition py_min :: "pyfloat list \<Rightarrow> py_error + pyfloat" where
  "py_min xs = py_min_key flt (\<lambda>a. a) xs"

text \<open>
  \<^verbatim>\<open>list.sort(key=f)\<close> and \<^verbatim>\<open>sorted\<close> are stable. On keys that \<open>lt\<close> orders totally every
  stable sort returns the same list, written here as insertion from the right. With a
  NaN among the keys the order Python returns depends on its merge strategy, which is
  not modelled. \<^verbatim>\<open>reverse=True\<close> reverses the list, sorts it and reverses it again.
\<close>

fun py_insort :: "('k \<Rightarrow> 'k \<Rightarrow> bool) \<Rightarrow> ('a \<Rightarrow> 'k) \<Rightarrow> 'a \<Rightarrow> 'a list \<Rightarrow> 'a list" where
  "py_insort lt f x [] = [x]"
| "py_insort lt f x (y # ys) =
     (if lt (f y) (f x) then y # py_insort lt f x ys else x # y # ys)"

definition py_sort :: "('k \<Rightarrow> 'k \<Rightarrow> bool) \<Rightarrow> ('a \<Rightarrow> 'k) \<Rightarrow> 'a list \<Rightarrow> 'a list" where
  "py_sort lt f xs = foldr (py_insort lt f) xs []"

definition py_sort_reverse :: "('k \<Rightarrow> 'k \<Rightarrow> bool) \<Rightarrow> ('a \<Rightarrow> 'k) \<Rightarrow> 'a list \<Rightarrow> 'a list" where
  "py_sort_reverse lt f xs = rev (py_sort lt f (rev xs))"

subsection \<open>Exceptions and dictionaries\<close>

text \<open>Sequencing of computations that may raise.\<close>

definition bind_err :: "'e + 'a \<Rightarrow> ('a \<Rightarrow> 'e + 'b) \<Rightarrow> 'e + 'b" where
  "bind_err m f = (case m of Inl e \<Rightarrow> Inl e | Inr x \<Rightarrow> f x)"

fun map_err :: "('a \<Rightarrow> 'e + 'b) \<Rightarrow> 'a list \<Rightarrow> 'e + 'b list" where
  "map_err f [] = Inr []"
| "map_err f (x # xs) =
     bind_err (f x) (\<lambda>y. bind_err (map_err f xs) (\<lambda>ys. Inr (y # ys)))"

text \<open>
  \<^verbatim>\<open>d[k] = f(d[k])\<close> on a \<^verbatim>\<open>defaultdict\<close> whose missing entries start at \<open>dflt\<close>: an
  existing key keeps its position, a new key goes to the end.
\<close>

fun update_entry :: "'k \<Rightarrow> 'v \<Rightarrow> ('v \<Rightarrow> 'v) \<Rightarrow> ('k \<times> 'v) list \<Rightarrow> ('k \<times> 'v) list" where
  "update_entry k dflt f [] = [(k, f dflt)]"
| "update_entry k dflt f (kv # kvs) =
     (if fst kv = k then (k, f (snd kv)) # kvs else kv # update_entry k dflt f kvs)"

text \<open>\<^verbatim>\<open>body[key]\<close> of a response body, for reading a result.\<close>

definition jget :: "json \<Rightarrow> string \<Rightarrow> json option" where
  "jget v k = (case v of JObj kvs \<Rightarrow> map_of kvs k | _ \<Rightarrow> None)"

definition jkeys :: "json \<Rightarrow> string list" where
  "jkeys v = (case v of JObj kvs \<Rightarrow> map fst kvs | _ \<Rightarrow> [])"

text \<open>\<^verbatim>\<open>round(v, 2)\<close> of a number that is a float or, from a guard's \<^verbatim>\<open>else 0\<close>, an int.\<close>

definition py_round2 :: "json \<Rightarrow> json" where
  "py_round2 v = (case v of JFloat f \<Rightarrow> JFloat (round2 f) | _ \<Rightarrow> v)"

section \<open>Strings\<close>

text \<open>
  A \<open>string\<close> is a list of bytes, so the character classes below are the ASCII part of
  Python's: code points beyond ASCII that Python counts as whitespace or as decimal digits
  are not recognised here.
\<close>

definition char_code :: "char \<Rightarrow> nat" where
  "char_code c = of_char c"

text \<open>The whitespace of \<^verbatim>\<open>str.strip()\<close>: tab to carriage return, the four separators, space.\<close>

definition is_space :: "char \<Rightarrow> bool" where
  "is_space c = (let n = char_code c in (9 \<le> n \<and> n \<le> 13) \<or> (28 \<le> n \<and> n \<le> 32))"

definition strip :: "string \<Rightarrow> string" where
  "strip s = rev (dropWhile is_space (rev (dropWhile is_space s)))"

text \<open>The whitespace that \<^verbatim>\<open>float(str)\<close> skips at both ends is the C one.\<close>

definition is_cspace :: "char \<Rightarrow> bool" where
  "is_cspace c = (let n = char_code c in (9 \<le> n \<and> n \<le> 13) \<or> n = 32)"

definition is_digit :: "char \<Rightarrow> bool" where
  "is_digit c = (let n = char_code c in 48 \<le> n \<and> n \<le> 57)"

definition digit_val :: "char \<Rightarrow> nat" where
  "digit_val c = char_code c - 48"

definition digits_val :: "string \<Rightarrow> nat" where
  "digits_val ds = foldl (\<lambda>a c. 10 * a + digit_val c) 0 ds"

definition lower :: "char \<Rightarrow> char" where
  "lower c = (let n = char_code c in if 65 \<le> n \<and> n \<le> 90 then char_of (n + 32) else c)"

text \<open>\<^verbatim>\<open>key in txn\<close> when \<^verbatim>\<open>txn\<close> is a string: the substring test.\<close>

fun starts_with :: "string \<Rightarrow> string \<Rightarrow> bool" where
  "starts_with [] s = True"
| "starts_with (k # ks) [] = False"
| "starts_with (k # ks) (c # cs) = (k = c \<and> starts_with ks cs)"

fun contains :: "string \<Rightarrow> string \<Rightarrow> bool" where
  "contains k [] = (k = [])"
| "contains k (c # cs) = (starts_with k (c # cs) \<or> contains k cs)"

subsection \<open>\<^verbatim>\<open>float(s)\<close> for a string\<close>

text \<open>
  Underscores are checked on the whole argument first: one is allowed only between two
  digits. The first argument is the previous character.
\<close>

fun drop_underscores :: "char option \<Rightarrow> string \<Rightarrow> string option" where
  "drop_underscores prev [] = (if prev = Some (CHR ''_'') then None else Some [])"
| "drop_underscores prev (c # cs) =
     (if c = CHR ''_'' then
        (case prev of
           None \<Rightarrow> None
         | Some p \<Rightarrow> if is_digit p then drop_underscores (Some c) cs else None)
      else if prev = Some (CHR ''_'') \<and> \<not> is_digit c then None
      else map_option ((#) c) (drop_underscores (Some c) cs))"

definition split_sign :: "string \<Rightarrow> bool \<times> string" where
  "split_sign s =
     (case s of
        [] \<Rightarrow> (False, [])
      | c # r \<Rightarrow> if c = CHR ''-'' then (True, r) else if c = CHR ''+'' then (False, r) else (False, s))"

text \<open>
  An unsigned decimal: digits with an optional point, at least one digit in all, and an
  optional exponent, which must have digits. Anything left over is a \<^verbatim>\<open>ValueError\<close>.
\<close>

definition parse_decimal :: "string \<Rightarrow> rat option" where
  "parse_decimal s =
     (let ip = takeWhile is_digit s;
          r1 = dropWhile is_digit s;
          has_point = (r1 \<noteq> [] \<and> hd r1 = CHR ''.'');
          fp = (if has_point then takeWhile is_digit (tl r1) else []);
          r2 = (if has_point then dropWhile is_digit (tl r1) else r1);
          m = of_nat (digits_val (ip @ fp)) / 10 ^ length fp
      in if ip = [] \<and> fp = [] then None
         else if r2 = [] then Some m
         else if hd r2 = CHR ''e'' \<or> hd r2 = CHR ''E'' then
           (let (neg, ds) = split_sign (tl r2)
            in if ds \<noteq> [] \<and> list_all is_digit ds then
                 Some (if neg then m / 10 ^ digits_val ds else m * 10 ^ digits_val ds)
               else None)
         else None)"

definition float_of_string :: "string \<Rightarrow> pyfloat option" where
  "float_of_string s =
     (case drop_underscores None s of
        None \<Rightarrow> None
      | Some s1 \<Rightarrow>
         (let t = rev (dropWhile is_cspace (rev (dropWhile is_cspace s1)));
              (neg, r) = split_sign t;
              low = map lower r
          in if low = ''inf'' \<or> low = ''infinity'' then Some (if neg then NInf else PInf)
             else if low = ''nan'' then Some NaN
             else map_option (\<lambda>m. Fin (if neg then - m else m)) (parse_decimal r)))"

text \<open>
  \<^verbatim>\<open>float(v)\<close> for a JSON value. An int beyond the float range raises
  \<^verbatim>\<open>OverflowError\<close>, which is neither of the two exceptions the upload handler catches
  around the conversion.
\<close>

definition py_float :: "json \<Rightarrow> py_error + pyfloat" where
  "py_float v =
     (case v of
        JNull \<Rightarrow> Inl TypeError
      | JBool b \<Rightarrow> Inr (Fin (if b then 1 else 0))
      | JInt n \<Rightarrow> if 2 ^ 1024 - 2 ^ 970 \<le> \<bar>n\<bar> then Inl OverflowError else Inr (Fin (of_int n))
      | JFloat f \<Rightarrow> Inr f
      | JStr s \<Rightarrow> (case float_of_string s of None \<Rightarrow> Inl ValueError | Some f \<Rightarrow> Inr f)
      | JList _ \<Rightarrow> Inl TypeError
      | JObj _ \<Rightarrow> Inl TypeError)"

text \<open>
  \<^verbatim>\<open>str(v)\<close> is the string itself for a string. The text Python prints for any other value
  is the parameter \<open>repr\<close>.
\<close>

definition py_str :: "(json \<Rightarrow> string) \<Rightarrow> json \<Rightarrow> string" where
  "py_str repr v = (case v of JStr s \<Rightarrow> s | _ \<Rightarrow> repr v)"

section \<open>The store\<close>

text \<open>
  A validated transaction is the dict literal built by the upload handler, always with
  the same four keys. The \<^verbatim>\<open>id\<close> is copied from the input as it is.
\<close>

record txn =
  txn_id :: json
  amount :: pyfloat
  category :: string
  date :: string

text \<open>The two globals: \<^verbatim>\<open>transactions\<close> and \<^verbatim>\<open>cache\<close>, a dict from a query name to its body.\<close>

record store =
  transactions :: "txn list"
  cache :: "string \<rightharpoonup> json"

definition init_store :: store where
  "init_store = \<lparr>transactions = [], cache = Map.empty\<rparr>"

definition clear_cache :: "store \<Rightarrow> store" where
  "clear_cache s = s\<lparr>cache := Map.empty\<rparr>"

section \<open>POST /upload\<close>

text \<open>
  The body of an upload response. The error sentences of the code are kept as
  constructors carrying the values the sentence prints; \<open>UploadOk\<close> carries \<^verbatim>\<open>count\<close> and
  the \<^verbatim>\<open>categories\<close>, which the code lists in the order of a Python set, that is, in no
  fixed order.
\<close>

datatype upload_body =
    UploadOk nat "string set"
  | NotAList
  | EmptyBatch
  | MissingFields nat
  | NegativeAmount nat
  | InvalidAmount nat json
  | ServerError py_error

type_synonym upload_response = "nat \<times> upload_body"

text \<open>Python's truth value of a JSON value, and \<^verbatim>\<open>isinstance(data, list)\<close>.\<close>

definition truthy :: "json \<Rightarrow> bool" where
  "truthy v =
     (case v of
        JNull \<Rightarrow> False
      | JBool b \<Rightarrow> b
      | JInt n \<Rightarrow> n \<noteq> 0
      | JFloat f \<Rightarrow> f \<noteq> Fin 0
      | JStr s \<Rightarrow> s \<noteq> []
      | JList xs \<Rightarrow> xs \<noteq> []
      | JObj kvs \<Rightarrow> kvs \<noteq> [])"

definition is_list :: "json \<Rightarrow> bool" where
  "is_list v = (case v of JList _ \<Rightarrow> True | _ \<Rightarrow> False)"

definition elems :: "json \<Rightarrow> json list" where
  "elems v = (case v of JList xs \<Rightarrow> xs | _ \<Rightarrow> [])"

text \<open>
  \<^verbatim>\<open>key in txn\<close>: a key of a dict, a substring of a string, an element of a list; any
  other value is not a container and the test raises \<^verbatim>\<open>TypeError\<close>.
\<close>

definition key_in :: "string \<Rightarrow> json \<Rightarrow> py_error + bool" where
  "key_in k t =
     (case t of
        JObj kvs \<Rightarrow> Inr (k \<in> set (map fst kvs))
      | JStr s \<Rightarrow> Inr (contains k s)
      | JList xs \<Rightarrow> Inr (JStr k \<in> set xs)
      | _ \<Rightarrow> Inl TypeError)"

text \<open>\<^verbatim>\<open>all(key in txn for key in keys)\<close> stops at the first key that is missing.\<close>

fun has_all_keys :: "string list \<Rightarrow> json \<Rightarrow> py_error + bool" where
  "has_all_keys [] t = Inr True"
| "has_all_keys (k # ks) t =
     (case key_in k t of
        Inl e \<Rightarrow> Inl e
      | Inr present \<Rightarrow> if present then has_all_keys ks t else Inr False)"

definition required_keys :: "string list" where
  "required_keys = [''id'', ''amount'', ''category'', ''date'']"

text \<open>\<^verbatim>\<open>txn[key]\<close>: only a dict can be indexed by a string.\<close>

definition subscript :: "json \<Rightarrow> string \<Rightarrow> py_error + json" where
  "subscript t k =
     (case t of
        JObj kvs \<Rightarrow> (case map_of kvs k of None \<Rightarrow> Inl KeyError | Some v \<Rightarrow> Inr v)
      | _ \<Rightarrow> Inl TypeError)"

text \<open>The outer \<^verbatim>\<open>except Exception\<close> of the handler.\<close>

definition server_error :: "py_error \<Rightarrow> upload_response" where
  "server_error e = (500, ServerError e)"

text \<open>\<^verbatim>\<open>float(txn['amount'])\<close>, the expression guarded by the inner \<^verbatim>\<open>try\<close>.\<close>

definition convert_amount :: "json \<Rightarrow> py_error + pyfloat" where
  "convert_amount t = (case subscript t ''amount'' of Inl e \<Rightarrow> Inl e | Inr v \<Rightarrow> py_float v)"

text \<open>
  The dict literal appended to \<^verbatim>\<open>validated_transactions\<close>; a failing subscript would
  leave the loop through the outer handler.
\<close>

definition make_txn :: "(json \<Rightarrow> string) \<Rightarrow> json \<Rightarrow> pyfloat \<Rightarrow> upload_response + txn" where
  "make_txn repr t a =
     (case subscript t ''id'' of
        Inl e \<Rightarrow> Inl (server_error e)
      | Inr i \<Rightarrow>
         (case subscript t ''category'' of
            Inl e \<Rightarrow> Inl (server_error e)
          | Inr c \<Rightarrow>
             (case subscript t ''date'' of
                Inl e \<Rightarrow> Inl (server_error e)
              | Inr d \<Rightarrow>
                 Inr \<lparr>txn_id = i, amount = a,
                      category = strip (py_str repr c), date = strip (py_str repr d)\<rparr>)))"

text \<open>
  One pass of the validation loop on the record at index \<open>idx\<close>: either the response the
  handler returns from inside the loop, or the validated transaction. The handler of the
  inner \<^verbatim>\<open>try\<close> catches \<^verbatim>\<open>ValueError\<close> and \<^verbatim>\<open>TypeError\<close> only, and it reads
  \<^verbatim>\<open>txn['amount']\<close> again for its message.
\<close>

definition validate_txn :: "(json \<Rightarrow> string) \<Rightarrow> nat \<Rightarrow> json \<Rightarrow> upload_response + txn" where
  "validate_txn repr idx t =
     (case has_all_keys required_keys t of
        Inl e \<Rightarrow> Inl (server_error e)
      | Inr all_present \<Rightarrow>
         if \<not> all_present then Inl (400, MissingFields idx)
         else
          (case convert_amount t of
             Inl e \<Rightarrow>
               if e = ValueError \<or> e = TypeError then
                 (case subscript t ''amount'' of
                    Inl e' \<Rightarrow> Inl (server_error e')
                  | Inr v \<Rightarrow> Inl (400, InvalidAmount idx v))
               else Inl (server_error e)
           | Inr a \<Rightarrow>
               if flt a (Fin 0) then Inl (400, NegativeAmount idx)
               else make_txn repr t a))"

text \<open>The loop \<^verbatim>\<open>for idx, txn in enumerate(data)\<close> with its accumulator.\<close>

fun validate_loop ::
  "(json \<Rightarrow> string) \<Rightarrow> nat \<Rightarrow> txn list \<Rightarrow> json list \<Rightarrow> upload_response + txn list" where
  "validate_loop repr idx validated [] = Inr validated"
| "validate_loop repr idx validated (t # ts) =
     (case validate_txn repr idx t of
        Inl r \<Rightarrow> Inl r
      | Inr v \<Rightarrow> validate_loop repr (Suc idx) (validated @ [v]) ts)"

text \<open>
  The handler. The request is \<open>None\<close> when \<^verbatim>\<open>request.get_json()\<close> raises (a body that is
  not JSON), which the outer handler turns into a 500 as well.
\<close>

definition upload_transactions ::
  "(json \<Rightarrow> string) \<Rightarrow> store \<Rightarrow> json option \<Rightarrow> store \<times> upload_response" where
  "upload_transactions repr s req =
     (case req of
        None \<Rightarrow> (s, server_error BadRequest)
      | Some data \<Rightarrow>
          if \<not> truthy data \<or> \<not> is_list data then (s, (400, NotAList))
          else if length (elems data) = 0 then (s, (400, EmptyBatch))
          else
           (case validate_loop repr 0 [] (elems data) of
              Inl r \<Rightarrow> (s, r)
            | Inr validated \<Rightarrow>
                (clear_cache (s\<lparr>transactions := validated\<rparr>),
                 (200, UploadOk (length validated) (set (map category validated))))))"

section \<open>GET /summary\<close>

text \<open>An entry of \<^verbatim>\<open>category_data\<close>; a new one starts at zero with no transactions.\<close>

record cat_data =
  cat_total :: pyfloat
  cat_count :: nat
  cat_transactions :: "(pyfloat \<times> string) list"

definition new_cat_data :: cat_data where
  "new_cat_data = \<lparr>cat_total = Fin 0, cat_count = 0, cat_transactions = []\<rparr>"

text \<open>
  The body of the loop over \<^verbatim>\<open>transactions\<close>: the three updates of the entry of the
  category, which is created when the category is new; then the loop.
\<close>

definition bump_category :: "txn \<Rightarrow> cat_data \<Rightarrow> cat_data" where
  "bump_category t d =
     d\<lparr>cat_total := fadd (cat_total d) (amount t),
       cat_count := Suc (cat_count d),
       cat_transactions := cat_transactions d @ [(amount t, date t)]\<rparr>"

definition add_to_category :: "(string \<times> cat_data) list \<Rightarrow> txn \<Rightarrow> (string \<times> cat_data) list" where
  "add_to_category category_data t =
     update_entry (category t) new_cat_data (bump_category t) category_data"

definition group_by_category :: "txn list \<Rightarrow> (string \<times> cat_data) list" where
  "group_by_category txns = foldl add_to_category [] txns"

text \<open>One dict of the \<^verbatim>\<open>summary\<close> list, before it is serialised.\<close>

record cat_summary =
  cs_category :: string
  cs_total :: pyfloat
  cs_count :: nat
  cs_average :: json
  cs_percentage :: json
  cs_highest :: json
  cs_lowest :: json

text \<open>
  The body of the loop over \<^verbatim>\<open>category_data.items()\<close>. The two quotients are guarded by
  conditional expressions whose other branch is the int \<open>0\<close>.
\<close>

definition summary_entry :: "pyfloat \<Rightarrow> string \<times> cat_data \<Rightarrow> py_error + cat_summary" where
  "summary_entry grand_total item =
     (let data = snd item in
      bind_err (if 0 < cat_count data
                then bind_err (fdiv (cat_total data) (float_of_nat (cat_count data)))
                       (\<lambda>q. Inr (JFloat q))
                else Inr (JInt 0)) (\<lambda>avg_transaction.
      bind_err (if fgt grand_total (Fin 0)
                then bind_err (fdiv (cat_total data) grand_total)
                       (\<lambda>q. Inr (JFloat (fmul q (Fin 100))))
                else Inr (JInt 0)) (\<lambda>percentage.
      let amounts = map fst (cat_transactions data) in
      bind_err (if amounts \<noteq> []
                then bind_err (py_max amounts) (\<lambda>m. Inr (JFloat (round2 m)))
                else Inr (JInt 0)) (\<lambda>highest.
      bind_err (if amounts \<noteq> []
                then bind_err (py_min amounts) (\<lambda>m. Inr (JFloat (round2 m)))
                else Inr (JInt 0)) (\<lambda>lowest.
      Inr \<lparr>cs_category = fst item,
           cs_total = round2 (cat_total data),
           cs_count = cat_count data,
           cs_average = py_round2 avg_transaction,
           cs_percentage = py_round2 percentage,
           cs_highest = highest,
           cs_lowest = lowest\<rparr>)))))"

definition grand_total_of :: "(string \<times> cat_data) list \<Rightarrow> pyfloat" where
  "grand_total_of category_data = fsum (map (\<lambda>item. cat_total (snd item)) category_data)"

text \<open>The \<^verbatim>\<open>summary\<close> list after \<^verbatim>\<open>summary.sort(key=lambda x: x['total'], reverse=True)\<close>.\<close>

definition summary_list :: "txn list \<Rightarrow> py_error + cat_summary list" where
  "summary_list txns =
     (let category_data = group_by_category txns;
          grand_total = grand_total_of category_data
      in bind_err (map_err (summary_entry grand_total) category_data)
           (\<lambda>summary. Inr (py_sort_reverse flt cs_total summary)))"

definition cat_summary_json :: "cat_summary \<Rightarrow> json" where
  "cat_summary_json e =
     JObj [(''category'', JStr (cs_category e)),
           (''total'', JFloat (cs_total e)),
           (''count'', JInt (int (cs_count e))),
           (''average'', cs_average e),
           (''percentage'', cs_percentage e),
           (''highest'', cs_highest e),
           (''lowest'', cs_lowest e)]"

text \<open>The dict \<^verbatim>\<open>result\<close> for a list of transactions that is not empty.\<close>

definition summarize :: "txn list \<Rightarrow> py_error + json" where
  "summarize txns =
     (let grand_total = grand_total_of (group_by_category txns) in
      bind_err (summary_list txns) (\<lambda>summary.
      bind_err (if 0 < length txns
                then bind_err (fdiv grand_total (float_of_nat (length txns)))
                       (\<lambda>q. Inr (JFloat (round2 q)))
                else Inr (JInt 0)) (\<lambda>overall_average.
      Inr (JObj [(''summary'', JList (map cat_summary_json summary)),
                 (''grand_total'', JFloat (round2 grand_total)),
                 (''categories_count'', JInt (int (length summary))),
                 (''total_transactions'', JInt (int (length txns))),
                 (''overall_average'', overall_average)]))))"

definition empty_summary :: json where
  "empty_summary =
     JObj [(''message'', JStr ''No transactions found. Please upload data first.''),
           (''summary'', JList []),
           (''grand_total'', JInt 0),
           (''categories_count'', JInt 0),
           (''total_transactions'', JInt 0),
           (''overall_average'', JInt 0)]"

text \<open>
  The handler: the cached body if there is one, the fixed body on an empty list (which is
  not cached), and otherwise the computed body, stored under \<^verbatim>\<open>'summary'\<close>.
\<close>

definition get_summary :: "store \<Rightarrow> py_error + store \<times> nat \<times> json" where
  "get_summary s =
     (case cache s ''summary'' of
        Some cached \<Rightarrow> Inr (s, 200, cached)
      | None \<Rightarrow>
          if transactions s = [] then Inr (s, 200, empty_summary)
          else bind_err (summarize (transactions s))
                 (\<lambda>result. Inr (s\<lparr>cache := (cache s)(''summary'' \<mapsto> result)\<rparr>, 200, result)))"

section \<open>GET /trends\<close>

subsection \<open>\<^verbatim>\<open>datetime.strptime(s, '%Y-%m-%d')\<close> and \<^verbatim>\<open>strftime('%Y-%m')\<close>\<close>

text \<open>
  The format is matched from the left as the pattern
  \<^verbatim>\<open>\d\d\d\d-(1[0-2]|0[1-9]|[1-9])-(3[01]|[12]\d|0[1-9]|[1-9]| [1-9])\<close>, whose alternatives are
  tried in this order, and nothing may follow the day. So a month or a day of one digit
  is accepted. The date must then exist: the year is at least 1 and the day is one of
  the month.
\<close>

definition is_leap :: "nat \<Rightarrow> bool" where
  "is_leap y = (y mod 4 = 0 \<and> (y mod 100 \<noteq> 0 \<or> y mod 400 = 0))"

definition days_in_month :: "nat \<Rightarrow> nat \<Rightarrow> nat" where
  "days_in_month y m =
     (if m = 2 then (if is_leap y then 29 else 28)
      else if m = 4 \<or> m = 6 \<or> m = 9 \<or> m = 11 then 30
      else 31)"

definition is_digit19 :: "char \<Rightarrow> bool" where
  "is_digit19 c = (is_digit c \<and> c \<noteq> CHR ''0'')"

definition match_year :: "string \<Rightarrow> (nat \<times> string) option" where
  "match_year s =
     (if 4 \<le> length s \<and> list_all is_digit (take 4 s)
      then Some (digits_val (take 4 s), drop 4 s) else None)"

definition match_dash :: "string \<Rightarrow> string option" where
  "match_dash s = (case s of [] \<Rightarrow> None | c # r \<Rightarrow> if c = CHR ''-'' then Some r else None)"

definition match_month :: "string \<Rightarrow> (nat \<times> string) option" where
  "match_month s =
     (case s of
        [] \<Rightarrow> None
      | [a] \<Rightarrow> if is_digit19 a then Some (digit_val a, []) else None
      | a # b # r \<Rightarrow>
          if a = CHR ''1'' \<and> (b = CHR ''0'' \<or> b = CHR ''1'' \<or> b = CHR ''2'')
            then Some (10 + digit_val b, r)
          else if a = CHR ''0'' \<and> is_digit19 b then Some (digit_val b, r)
          else if is_digit19 a then Some (digit_val a, b # r)
          else None)"

definition match_day :: "string \<Rightarrow> (nat \<times> string) option" where
  "match_day s =
     (case s of
        [] \<Rightarrow> None
      | [a] \<Rightarrow> if is_digit19 a then Some (digit_val a, []) else None
      | a # b # r \<Rightarrow>
          if a = CHR ''3'' \<and> (b = CHR ''0'' \<or> b = CHR ''1'') then Some (30 + digit_val b, r)
          else if (a = CHR ''1'' \<or> a = CHR ''2'') \<and> is_digit b
            then Some (10 * digit_val a + digit_val b, r)
          else if a = CHR ''0'' \<and> is_digit19 b then Some (digit_val b, r)
          else if is_digit19 a then Some (digit_val a, b # r)
          else if a = CHR '' '' \<and> is_digit19 b then Some (digit_val b, r)
          else None)"

text \<open>The parsed date as year, month, day; \<^verbatim>\<open>ValueError\<close> when the string is not a date.\<close>

definition strptime :: "string \<Rightarrow> py_error + nat \<times> nat \<times> nat" where
  "strptime s =
     (case match_year s of
        None \<Rightarrow> Inl ValueError
      | Some (y, r1) \<Rightarrow>
     (case match_dash r1 of
        None \<Rightarrow> Inl ValueError
      | Some r2 \<Rightarrow>
     (case match_month r2 of
        None \<Rightarrow> Inl ValueError
      | Some (m, r3) \<Rightarrow>
     (case match_dash r3 of
        None \<Rightarrow> Inl ValueError
      | Some r4 \<Rightarrow>
     (case match_day r4 of
        None \<Rightarrow> Inl ValueError
      | Some (d, r5) \<Rightarrow>
          if r5 \<noteq> [] then Inl ValueError
          else if y < 1 \<or> days_in_month y m < d then Inl ValueError
          else Inr (y, m, d))))))"

definition digit_char :: "nat \<Rightarrow> char" where
  "digit_char d = char_of (48 + d mod 10)"

text \<open>
  \<^verbatim>\<open>date_obj.strftime('%Y-%m')\<close>: the year on four digits and the month on two. (The C
  library of some platforms prints a year below 1000 without its leading zeros; the
  four-digit form is the one modelled.)
\<close>

definition strftime_Ym :: "nat \<times> nat \<times> nat \<Rightarrow> string" where
  "strftime_Ym dt =
     (case dt of (y, m, d) \<Rightarrow>
        [digit_char (y div 1000), digit_char (y div 100), digit_char (y div 10), digit_char y,
         CHR ''-'', digit_char (m div 10), digit_char m])"

subsection \<open>The handler\<close>

record month_data =
  md_total :: pyfloat
  md_count :: nat
  md_categories :: "(string \<times> pyfloat) list"

definition new_month_data :: month_data where
  "new_month_data = \<lparr>md_total = Fin 0, md_count = 0, md_categories = []\<rparr>"

definition bump_month :: "txn \<Rightarrow> month_data \<Rightarrow> month_data" where
  "bump_month t d =
     d\<lparr>md_total := fadd (md_total d) (amount t),
       md_count := Suc (md_count d),
       md_categories :=
         update_entry (category t) (Fin 0) (\<lambda>a. fadd a (amount t)) (md_categories d)\<rparr>"

definition add_to_month :: "string \<Rightarrow> txn \<Rightarrow> (string \<times> month_data) list \<Rightarrow> (string \<times> month_data) list" where
  "add_to_month month_key t monthly_data =
     update_entry month_key new_month_data (bump_month t) monthly_data"

text \<open>The loop over \<^verbatim>\<open>transactions\<close>; a date that does not parse raises out of it.\<close>

fun group_by_month :: "(string \<times> month_data) list \<Rightarrow> txn list \<Rightarrow> py_error + (string \<times> month_data) list" where
  "group_by_month monthly_data [] = Inr monthly_data"
| "group_by_month monthly_data (t # ts) =
     bind_err (strptime (date t))
       (\<lambda>date_obj. group_by_month (add_to_month (strftime_Ym date_obj) t monthly_data) ts)"

record month_summary =
  ms_month :: string
  ms_total :: pyfloat
  ms_count :: nat
  ms_average :: pyfloat
  ms_top_category :: string
  ms_categories :: "(string \<times> pyfloat) list"

definition month_entry :: "string \<times> month_data \<Rightarrow> py_error + month_summary" where
  "month_entry item =
     (let data = snd item in
      bind_err (fdiv (md_total data) (float_of_nat (md_count data))) (\<lambda>avg.
      bind_err (py_max_key fgt snd (md_categories data)) (\<lambda>top.
      Inr \<lparr>ms_month = fst item,
           ms_total = round2 (md_total data),
           ms_count = md_count data,
           ms_average = round2 avg,
           ms_top_category = fst top,
           ms_categories = map (\<lambda>c. (fst c, round2 (snd c))) (md_categories data)\<rparr>)))"

definition month_summary_json :: "month_summary \<Rightarrow> json" where
  "month_summary_json e =
     JObj [(''month'', JStr (ms_month e)),
           (''total'', JFloat (ms_total e)),
           (''count'', JInt (int (ms_count e))),
           (''average'', JFloat (ms_average e)),
           (''top_category'', JStr (ms_top_category e)),
           (''categories'', JObj (map (\<lambda>c. (fst c, JFloat (snd c))) (ms_categories e)))]"

text \<open>
  The list \<^verbatim>\<open>monthly_trends\<close>, built over \<^verbatim>\<open>sorted(monthly_data.items())\<close>: the items are
  pairs with distinct month keys, so the key decides their order.
\<close>

definition monthly_trends :: "txn list \<Rightarrow> py_error + month_summary list" where
  "monthly_trends txns =
     bind_err (group_by_month [] txns)
       (\<lambda>monthly_data. map_err month_entry (py_sort (<) fst monthly_data))"

text \<open>
  The handler has no \<^verbatim>\<open>try\<close>: an exception leaves it, and the client gets the
  framework's answer for an unhandled error, which is \<open>Inl\<close> here.
\<close>

definition empty_trends :: json where
  "empty_trends =
     JObj [(''message'', JStr ''No transactions found. Please upload data first.''),
           (''trends'', JList [])]"

definition get_trends :: "txn list \<Rightarrow> py_error + nat \<times> json" where
  "get_trends txns =
     (if txns = [] then Inr (200, empty_trends)
      else bind_err (monthly_trends txns) (\<lambda>trends.
        Inr (200, JObj [(''monthly_trends'', JList (map month_summary_json trends)),
                        (''months_count'', JInt (int (length trends)))])))"

section \<open>GET /category-details/<category>\<close>

definition txn_json :: "txn \<Rightarrow> json" where
  "txn_json t =
     JObj [(''id'', txn_id t),
           (''amount'', JFloat (amount t)),
           (''category'', JStr (category t)),
           (''date'', JStr (date t))]"

definition get_category_details :: "txn list \<Rightarrow> string \<Rightarrow> py_error + nat \<times> json" where
  "get_category_details txns cat =
     (if txns = [] then Inr (404, JObj [(''error'', JStr ''No transactions found'')])
      else
       (let category_txns = filter (\<lambda>t. category t = cat) txns in
        if category_txns = [] then
          Inr (404, JObj [(''error'', JStr (''No transactions found for category: '' @ cat))])
        else
         (let total = fsum (map amount category_txns);
              amounts = map amount category_txns;
              sorted_txns = py_sort (<) date category_txns
          in bind_err (fdiv total (float_of_nat (length sorted_txns))) (\<lambda>avg.
             bind_err (py_max amounts) (\<lambda>highest.
             bind_err (py_min amounts) (\<lambda>lowest.
             Inr (200, JObj [(''category'', JStr cat),
                             (''total'', JFloat (round2 total)),
                             (''count'', JInt (int (length sorted_txns))),
                             (''average'', JFloat (round2 avg)),
                             (''highest'', JFloat highest),
                             (''lowest'', JFloat lowest),
                             (''transactions'', JList (map txn_json sorted_txns))])))))))"

section \<open>GET /insight\<close>

text \<open>
  Each sentence of the handler is a constructor that carries the values the sentence
  prints, in the order in which it prints them; the text of the numbers is not modelled.
\<close>

datatype insight =
    NoTransactions
  | HighestSpend string pyfloat pyfloat
  | AverageValue pyfloat nat
  | MostFrequent string nat
  | LowestSpend string pyfloat
  | HighValue nat pyfloat

definition category_totals_of :: "txn list \<Rightarrow> (string \<times> pyfloat) list" where
  "category_totals_of txns =
     foldl (\<lambda>totals t. update_entry (category t) (Fin 0) (\<lambda>a. fadd a (amount t)) totals) [] txns"

definition category_counts_of :: "txn list \<Rightarrow> (string \<times> nat) list" where
  "category_counts_of txns =
     foldl (\<lambda>counts t. update_entry (category t) 0 Suc counts) [] txns"

definition get_insights :: "txn list \<Rightarrow> py_error + nat \<times> insight list" where
  "get_insights txns =
     (if txns = [] then Inr (200, [NoTransactions])
      else
       (let category_totals = category_totals_of txns;
            category_counts = category_counts_of txns
        in
        bind_err (if category_totals \<noteq> [] then
                    bind_err (py_max_key fgt snd category_totals) (\<lambda>max_category.
                    bind_err (fdiv (snd max_category) (fsum (map snd category_totals))) (\<lambda>q.
                    Inr [HighestSpend (fst max_category) (snd max_category) (fmul q (Fin 100))]))
                  else Inr []) (\<lambda>insights1.
        let total_amount = fsum (map amount txns) in
        bind_err (fdiv total_amount (float_of_nat (length txns))) (\<lambda>avg_transaction.
        let insights2 = insights1 @ [AverageValue avg_transaction (length txns)] in
        bind_err (py_max_key (>) snd category_counts) (\<lambda>most_frequent.
        let insights3 = insights2 @ [MostFrequent (fst most_frequent) (snd most_frequent)] in
        bind_err (if 1 < length category_totals then
                    bind_err (py_min_key flt snd category_totals) (\<lambda>min_category.
                    Inr (insights3 @ [LowestSpend (fst min_category) (snd min_category)]))
                  else Inr insights3) (\<lambda>insights4.
        let high_value_txns =
              filter (\<lambda>t. fgt (amount t) (fmul avg_transaction (Fin 2))) txns;
            insights5 =
              (if high_value_txns \<noteq> [] then
                 insights4 @ [HighValue (length high_value_txns) (fmul avg_transaction (Fin 2))]
               else insights4)
        in Inr (200, insights5)))))))"

section \<open>Reachable stores\<close>

text \<open>
  The store starts empty. Only two handlers assign a global: the upload, whatever the
  request is, and the summary, when it fills the cache.
\<close>

inductive reachable :: "store \<Rightarrow> bool" where
  reachable_init: "reachable init_store"
| reachable_upload:
    "reachable s \<Longrightarrow> upload_transactions repr s req = (s', r) \<Longrightarrow> reachable s'"
| reachable_summary:
    "reachable s \<Longrightarrow> get_summary s = Inr (s', r) \<Longrightarrow> reachable s'"

section \<open>Notions used to state the properties\<close>

text \<open>\<^verbatim>\<open>d[k]\<close> of a \<^verbatim>\<open>defaultdict\<close>, read without creating the entry.\<close>

definition entry_of :: "'v \<Rightarrow> ('k \<times> 'v) list \<Rightarrow> 'k \<Rightarrow> 'v" where
  "entry_of dflt kvs k = (case map_of kvs k of None \<Rightarrow> dflt | Some v \<Rightarrow> v)"

text \<open>A stored date parses, and the month key the trend loop computes from it.\<close>

definition date_parses :: "txn \<Rightarrow> bool" where
  "date_parses t = (case strptime (date t) of Inl e \<Rightarrow> False | Inr d \<Rightarrow> True)"

definition month_key :: "txn \<Rightarrow> string" where
  "month_key t = (case strptime (date t) of Inl e \<Rightarrow> [] | Inr d \<Rightarrow> strftime_Ym d)"

text \<open>
  A date written \<^verbatim>\<open>YYYY-MM-DD\<close> with ten characters, month and day on two digits and a
  year from 1000 on.
\<close>

definition padded_date :: "string \<Rightarrow> bool" where
  "padded_date s =
     (length s = 10
      \<and> list_all is_digit (take 4 s) \<and> s ! 0 \<noteq> CHR ''0''
      \<and> s ! 4 = CHR ''-'' \<and> is_digit (s ! 5) \<and> is_digit (s ! 6)
      \<and> s ! 7 = CHR ''-'' \<and> is_digit (s ! 8) \<and> is_digit (s ! 9))"

text \<open>The transactions of a bucket: those whose month key is the key of the bucket.\<close>

definition in_month :: "string \<Rightarrow> txn list \<Rightarrow> txn list" where
  "in_month k txns = filter (\<lambda>t. month_key t = k) txns"

text \<open>The place of the first transaction of a category in the stored list.\<close>

definition first_pos :: "txn list \<Rightarrow> string \<Rightarrow> nat" where
  "first_pos txns c = length (takeWhile (\<lambda>t. category t \<noteq> c) txns)"

text \<open>A stored amount is a number: any float but NaN.\<close>

definition is_number :: "pyfloat \<Rightarrow> bool" where
  "is_number a = (a \<noteq> NaN)"

section \<open>Example requests\<close>

definition record_of :: "int \<Rightarrow> json \<Rightarrow> string \<Rightarrow> string \<Rightarrow> json" where
  "record_of i a c d =
     JObj [(''id'', JInt i), (''amount'', a), (''category'', JStr c), (''date'', JStr d)]"

definition no_repr :: "json \<Rightarrow> string" where
  "no_repr v = []"

definition example_batch :: json where
  "example_batch =
     JList [record_of 1 (JInt 100) ''Food'' ''2025-01-05'',
            record_of 2 (JInt 50) ''Travel'' ''2025-02-10'']"

definition example_store :: store where
  "example_store = fst (upload_transactions no_repr init_store (Some example_batch))"

definition example_txns :: "txn list" where
  "example_txns =
     [\<lparr>txn_id = JInt 1, amount = Fin 100, category = ''Food'', date = ''2025-01-05''\<rparr>,
      \<lparr>txn_id = JInt 2, amount = Fin 50, category = ''Travel'', date = ''2025-02-10''\<rparr>,
      \<lparr>txn_id = JInt 3, amount = Fin 25, category = ''Food'', date = ''2025-1-20''\<rparr>]"

definition example_details :: "txn list" where
  "example_details =
     [\<lparr>txn_id = JInt 1, amount = Fin (201 / 200), category = ''Food'', date = ''2025-01-09''\<rparr>,
      \<lparr>txn_id = JInt 2, amount = Fin 50, category = ''Travel'', date = ''2025-01-03''\<rparr>,
      \<lparr>txn_id = JInt 3, amount = Fin (5 / 2), category = ''Food'', date = ''2025-01-02''\<rparr>]"

definition example_ties :: json where
  "example_ties =
     JList [record_of 1 (JInt 30) ''Food'' ''2025-01-05'',
            record_of 2 (JInt 100) ''Rent'' ''2025-01-06'',
            record_of 3 (JStr ''1e2'') ''Travel'' ''2025-01-07'',
            record_of 4 (JFloat (Fin 20)) ''Food'' ''2025-01-08'']"

definition example_ties_store :: store where
  "example_ties_store = fst (upload_transactions no_repr init_store (Some example_ties))"

definition example_cached :: store where
  "example_cached =
     (case get_summary example_store of Inr (s, r) \<Rightarrow> s | Inl e \<Rightarrow> example_store)"

section \<open>Properties of the upload\<close>

lemma validate_txn_status:
  "validate_txn repr idx t = Inl r \<Longrightarrow> fst r = 400 \<or> fst r = 500"
  by (auto simp: validate_txn_def make_txn_def server_error_def split: sum.splits if_splits)

lemma validate_loop_append:
  "validate_loop repr idx acc (xs @ ys) =
     (case validate_loop repr idx acc xs of
        Inl r \<Rightarrow> Inl r
      | Inr acc' \<Rightarrow> validate_loop repr (idx + length xs) acc' ys)"
  by (induction xs arbitrary: idx acc) (auto split: sum.splits)

lemma has_all_keys_obj:
  "has_all_keys ks (JObj kvs) = Inr (list_all (\<lambda>k. k \<in> fst ` set kvs) ks)"
  by (induction ks) (auto simp: key_in_def)

text \<open>
  C3. The batch is \<open>pre @ bad # post\<close>, where every record of \<open>pre\<close> passes the loop and
  \<open>bad\<close> is the first one that does not. The upload then answers with the response of
  \<open>bad\<close>, whatever \<open>post\<close> holds, that response is not a 200, and the store that comes
  back is the store that went in: its list and its cache are untouched.
\<close>

theorem upload_all_or_nothing:
  assumes "validate_loop repr 0 [] pre = Inr validated"
      and "validate_txn repr (length pre) bad = Inl r"
  shows "upload_transactions repr s (Some (JList (pre @ bad # post))) = (s, r)
         \<and> fst r \<noteq> 200"
proof -
  have "validate_loop repr 0 [] (pre @ bad # post) = Inl r"
    using assms by (simp add: validate_loop_append)
  moreover have "fst r \<noteq> 200"
    using validate_txn_status [OF assms(2)] by auto
  ultimately show ?thesis
    by (simp add: upload_transactions_def truthy_def is_list_def elems_def)
qed

theorem upload_all_or_nothing_witness:
  "validate_loop no_repr 0 [] [record_of 1 (JInt 100) ''Food'' ''2025-01-05'']
     = Inr [\<lparr>txn_id = JInt 1, amount = Fin 100, category = ''Food'', date = ''2025-01-05''\<rparr>]
   \<and> validate_txn no_repr 1 (record_of 2 (JInt (- 5)) ''Food'' ''2025-01-06'')
     = Inl (400, NegativeAmount 1)
   \<and> upload_transactions no_repr init_store
       (Some (JList ([record_of 1 (JInt 100) ''Food'' ''2025-01-05'']
                     @ record_of 2 (JInt (- 5)) ''Food'' ''2025-01-06''
                     # [record_of 3 (JStr ''abc'') ''Rent'' ''2025-01-07''])))
     = (init_store, (400, NegativeAmount 1))
   \<and> fst (400 :: nat, NegativeAmount 1) \<noteq> 200"
proof -
  have h1: "validate_loop no_repr 0 [] [record_of 1 (JInt 100) ''Food'' ''2025-01-05'']
     = Inr [\<lparr>txn_id = JInt 1, amount = Fin 100, category = ''Food'', date = ''2025-01-05''\<rparr>]"
    by code_simp
  have h2: "validate_txn no_repr (length [record_of 1 (JInt 100) ''Food'' ''2025-01-05''])
              (record_of 2 (JInt (- 5)) ''Food'' ''2025-01-06'')
     = Inl (400, NegativeAmount 1)"
    by code_simp
  show ?thesis
    using upload_all_or_nothing [OF h1 h2, of init_store
        "[record_of 3 (JStr ''abc'') ''Rent'' ''2025-01-07'']"] h1 h2
    by simp
qed

text \<open>
  C4. When every record before it passes and the record at that place is an object that
  lacks one of the four keys, the upload answers 400 with the missing-fields error that
  names the index of that record.
\<close>

theorem upload_missing_fields:
  assumes "validate_loop repr 0 [] pre = Inr validated"
      and "k \<in> set required_keys"
      and "k \<notin> fst ` set kvs"
  shows "upload_transactions repr s (Some (JList (pre @ JObj kvs # post)))
           = (s, (400, MissingFields (length pre)))"
proof -
  have "has_all_keys required_keys (JObj kvs) = Inr False"
    using assms(2,3) by (auto simp: has_all_keys_obj list_all_iff)
  then have "validate_txn repr (length pre) (JObj kvs) = Inl (400, MissingFields (length pre))"
    by (simp add: validate_txn_def)
  then have "validate_loop repr 0 [] (pre @ JObj kvs # post)
               = Inl (400, MissingFields (length pre))"
    using assms(1) by (simp add: validate_loop_append)
  then show ?thesis
    by (simp add: upload_transactions_def truthy_def is_list_def elems_def)
qed

theorem upload_missing_fields_witness:
  "validate_loop no_repr 0 [] [record_of 1 (JInt 100) ''Food'' ''2025-01-05'']
     = Inr [\<lparr>txn_id = JInt 1, amount = Fin 100, category = ''Food'', date = ''2025-01-05''\<rparr>]
   \<and> ''date'' \<in> set required_keys
   \<and> ''date'' \<notin> fst ` set [(''id'', JInt 2), (''amount'', JInt 3), (''category'', JStr ''Food'')]
   \<and> upload_transactions no_repr init_store
       (Some (JList ([record_of 1 (JInt 100) ''Food'' ''2025-01-05'']
                     @ JObj [(''id'', JInt 2), (''amount'', JInt 3), (''category'', JStr ''Food'')]
                     # [])))
     = (init_store, (400, MissingFields 1))"
proof -
  have h1: "validate_loop no_repr 0 [] [record_of 1 (JInt 100) ''Food'' ''2025-01-05'']
     = Inr [\<lparr>txn_id = JInt 1, amount = Fin 100, category = ''Food'', date = ''2025-01-05''\<rparr>]"
    by code_simp
  have h2: "''date'' \<in> set required_keys"
    by (simp add: required_keys_def)
  have h3: "''date'' \<notin> fst ` set [(''id'', JInt 2), (''amount'', JInt 3), (''category'', JStr ''Food'')]"
    by simp
  show ?thesis
    using upload_missing_fields [OF h1 h2 h3, of init_store "[]"] h1 h2 h3
    by simp
qed

text \<open>
  C2. The amount check of the loop rejects a converted amount only when it compares
  below zero, and NaN compares below nothing. The string \<^verbatim>\<open>"nan"\<close> converts to NaN, so
  this upload is accepted with a 200 and stores an amount for which \<^verbatim>\<open>amount >= 0\<close> is
  false.
\<close>

theorem upload_stores_nan_amount:
  "upload_transactions no_repr init_store
     (Some (JList [record_of 1 (JStr ''nan'') ''Food'' ''2025-01-05'']))
   = (\<lparr>transactions =
         [\<lparr>txn_id = JInt 1, amount = NaN, category = ''Food'', date = ''2025-01-05''\<rparr>],
       cache = Map.empty\<rparr>,
      (200, UploadOk 1 {''Food''}))
   \<and> \<not> fge NaN (Fin 0)"
proof -
  have "validate_loop no_repr 0 [] [record_of 1 (JStr ''nan'') ''Food'' ''2025-01-05'']
          = Inr [\<lparr>txn_id = JInt 1, amount = NaN, category = ''Food'', date = ''2025-01-05''\<rparr>]"
    by code_simp
  then show ?thesis
    by (simp add: upload_transactions_def truthy_def is_list_def elems_def clear_cache_def
        init_store_def)
qed

theorem upload_stores_nan_amount_witness:
  "fst (snd (upload_transactions no_repr init_store
     (Some (JList [record_of 1 (JStr ''nan'') ''Food'' ''2025-01-05''])))) = 200
   \<and> map amount (transactions (fst (upload_transactions no_repr init_store
     (Some (JList [record_of 1 (JStr ''nan'') ''Food'' ''2025-01-05'']))))) = [NaN]"
  using upload_stores_nan_amount by simp


section \<open>Divisions and the summary\<close>

lemma fdiv_Inl_iff: "fdiv a b = Inl e \<longleftrightarrow> b = Fin 0 \<and> e = ZeroDivisionError"
  by (cases a; cases b) (auto split: pyfloat.splits)

lemma fdiv_nonzero: "b \<noteq> Fin 0 \<Longrightarrow> \<exists>q. fdiv a b = Inr q"
  by (cases "fdiv a b") (auto simp: fdiv_Inl_iff)

lemma fgt_zero_nonzero: "fgt b (Fin 0) \<Longrightarrow> b \<noteq> Fin 0"
  by (auto simp: fgt_def)

lemma float_of_nat_nonzero: "0 < n \<Longrightarrow> float_of_nat n \<noteq> Fin 0"
  by (simp add: float_of_nat_def)

lemma py_max_nonempty: "xs \<noteq> [] \<Longrightarrow> \<exists>m. py_max xs = Inr m"
  by (cases xs) (auto simp: py_max_def py_max_key_def)

lemma py_min_nonempty: "xs \<noteq> [] \<Longrightarrow> \<exists>m. py_min xs = Inr m"
  by (cases xs) (auto simp: py_min_def py_min_key_def)

lemma bind_err_Inr [simp]: "bind_err (Inr x) f = f x"
  by (simp add: bind_err_def)

lemma bind_err_Inl [simp]: "bind_err (Inl e) f = Inl e"
  by (simp add: bind_err_def)

lemma summary_entry_total:
  "\<exists>e. summary_entry g item = Inr e \<and> cs_category e = fst item
       \<and> cs_total e = round2 (cat_total (snd item))"
proof -
  obtain avg where avg: "(if 0 < cat_count (snd item)
                then bind_err (fdiv (cat_total (snd item)) (float_of_nat (cat_count (snd item))))
                       (\<lambda>q. Inr (JFloat q))
                else Inr (JInt 0)) = Inr avg"
    using fdiv_nonzero [OF float_of_nat_nonzero, of "cat_count (snd item)" "cat_total (snd item)"]
    by (cases "0 < cat_count (snd item)") auto
  obtain pct where pct: "(if fgt g (Fin 0)
                then bind_err (fdiv (cat_total (snd item)) g)
                       (\<lambda>q. Inr (JFloat (fmul q (Fin 100))))
                else Inr (JInt 0)) = Inr pct"
    using fdiv_nonzero [OF fgt_zero_nonzero, of g "cat_total (snd item)"]
    by (cases "fgt g (Fin 0)") auto
  obtain hi where hi: "(if map fst (cat_transactions (snd item)) \<noteq> []
                then bind_err (py_max (map fst (cat_transactions (snd item)))) (\<lambda>m. Inr (JFloat (round2 m)))
                else Inr (JInt 0)) = Inr hi"
    using py_max_nonempty [of "map fst (cat_transactions (snd item))"]
    by (cases "map fst (cat_transactions (snd item)) \<noteq> []") auto
  obtain lo where lo: "(if map fst (cat_transactions (snd item)) \<noteq> []
                then bind_err (py_min (map fst (cat_transactions (snd item)))) (\<lambda>m. Inr (JFloat (round2 m)))
                else Inr (JInt 0)) = Inr lo"
    using py_min_nonempty [of "map fst (cat_transactions (snd item))"]
    by (cases "map fst (cat_transactions (snd item)) \<noteq> []") auto
  show ?thesis
    unfolding summary_entry_def Let_def avg pct hi lo by simp
qed

lemma map_err_total:
  assumes "\<And>x. x \<in> set xs \<Longrightarrow> \<exists>y. f x = Inr y"
  shows "\<exists>ys. map_err f xs = Inr ys"
  using assms
proof (induction xs)
  case Nil
  then show ?case by simp
next
  case (Cons x xs)
  then obtain y ys where "f x = Inr y" "map_err f xs = Inr ys"
    by (meson list.set_intros)
  then show ?case by simp
qed

lemma map_err_Inr_nth:
  "map_err f xs = Inr ys \<Longrightarrow> list_all2 (\<lambda>x y. f x = Inr y) xs ys"
proof (induction xs arbitrary: ys)
  case Nil
  then show ?case by simp
next
  case (Cons x xs)
  then show ?case
    by (auto simp: bind_err_def split: sum.splits)
qed

lemma summary_list_total: "\<exists>es. summary_list txns = Inr es"
proof -
  obtain es where "map_err (summary_entry (grand_total_of (group_by_category txns)))
                     (group_by_category txns) = Inr es"
    using map_err_total [of "group_by_category txns"
        "summary_entry (grand_total_of (group_by_category txns))"] summary_entry_total
    by blast
  then show ?thesis
    by (simp add: summary_list_def Let_def)
qed

lemma summarize_total: "\<exists>r. summarize txns = Inr r"
proof -
  obtain es where es: "summary_list txns = Inr es"
    using summary_list_total by blast
  obtain oa where oa: "(if 0 < length txns
                then bind_err (fdiv (grand_total_of (group_by_category txns)) (float_of_nat (length txns)))
                       (\<lambda>q. Inr (JFloat (round2 q)))
                else Inr (JInt 0)) = Inr oa"
    using fdiv_nonzero [OF float_of_nat_nonzero, of "length txns" "grand_total_of (group_by_category txns)"]
    by (cases "0 < length txns") auto
  show ?thesis
    unfolding summarize_def Let_def es oa by simp
qed

lemma get_summary_total: "\<exists>s' body. get_summary s = Inr (s', 200, body)"
  using summarize_total [of "transactions s"]
  by (auto simp: get_summary_def split: option.splits)

lemma validate_loop_status:
  "validate_loop repr idx acc xs = Inl r \<Longrightarrow> fst r = 400 \<or> fst r = 500"
  by (induction xs arbitrary: idx acc) (auto split: sum.splits dest: validate_txn_status)

lemma validate_loop_length:
  "validate_loop repr idx acc xs = Inr v \<Longrightarrow> length v = length acc + length xs"
  by (induction xs arbitrary: idx acc) (auto split: sum.splits)

lemma upload_success:
  assumes "upload_transactions repr s req = (s', 200, b)"
  shows "cache s' = Map.empty \<and> transactions s' \<noteq> []"
proof (cases req)
  case None
  then show ?thesis
    using assms by (simp add: upload_transactions_def server_error_def)
next
  case (Some data)
  show ?thesis
  proof (cases "validate_loop repr 0 [] (elems data)")
    case (Inl r)
    then show ?thesis
      using assms Some validate_loop_status [OF Inl]
      by (auto simp: upload_transactions_def split: if_splits)
  next
    case (Inr v)
    then show ?thesis
      using assms Some validate_loop_length [OF Inr]
      by (auto simp: upload_transactions_def clear_cache_def split: if_splits)
  qed
qed


section \<open>The cache\<close>

lemma upload_store_cases:
  assumes "upload_transactions repr s req = (s', r)"
  shows "s' = s \<or> cache s' = Map.empty"
  using assms
  by (auto simp: upload_transactions_def clear_cache_def split: option.splits if_splits sum.splits)

lemma get_summary_cases:
  assumes "get_summary s = Inr (s', st, body)"
  shows "st = 200 \<and> transactions s' = transactions s \<and>
         (if cache s ''summary'' = None \<and> transactions s \<noteq> []
          then summarize (transactions s) = Inr body
               \<and> s' = s\<lparr>cache := (cache s)(''summary'' \<mapsto> body)\<rparr>
          else s' = s)"
  using assms
  by (auto simp: get_summary_def bind_err_def split: option.splits if_splits sum.splits)

lemma get_summary_again:
  assumes "get_summary s = Inr (s', st, body)"
  shows "get_summary s' = Inr (s', st, body)"
proof (cases "cache s ''summary'' = None \<and> transactions s \<noteq> []")
  case True
  then have "s' = s\<lparr>cache := (cache s)(''summary'' \<mapsto> body)\<rparr>" "st = 200"
    using get_summary_cases [OF assms] by auto
  then show ?thesis
    by (simp add: get_summary_def)
next
  case False
  then have "s' = s"
    using get_summary_cases [OF assms] by auto
  then show ?thesis
    using assms by simp
qed

lemma reachable_cache:
  "reachable s \<Longrightarrow> cache s ''summary'' = Some cached \<Longrightarrow>
     summarize (transactions s) = Inr cached"
proof (induction arbitrary: cached rule: reachable.induct)
  case reachable_init
  then show ?case by (simp add: init_store_def)
next
  case (reachable_upload s repr req s' r)
  then show ?case
    using upload_store_cases [OF reachable_upload.hyps(2)] by auto
next
  case (reachable_summary s s' r)
  obtain st body where r: "r = (st, body)" by (cases r)
  show ?case
  proof (cases "cache s ''summary'' = None \<and> transactions s \<noteq> []")
    case True
    then show ?thesis
      using get_summary_cases [of s s' st body] reachable_summary.hyps(2) reachable_summary.prems r
      by auto
  next
    case False
    then have "s' = s"
      using get_summary_cases [of s s' st body] reachable_summary.hyps(2) r by auto
    then show ?thesis
      using reachable_summary.IH reachable_summary.prems by simp
  qed
qed

lemma summary_after_upload:
  assumes "upload_transactions repr s req = (s1, 200, b)"
  shows "cache s1 = Map.empty \<and>
         (\<exists>s2 body. get_summary s1 = Inr (s2, 200, body)
            \<and> summarize (transactions s1) = Inr body
            \<and> get_summary s2 = Inr (s2, 200, body))"
proof -
  have c: "cache s1 = Map.empty" and t: "transactions s1 \<noteq> []"
    using upload_success [OF assms] by auto
  obtain body where body: "summarize (transactions s1) = Inr body"
    using summarize_total by blast
  have g: "get_summary s1 = Inr (s1\<lparr>cache := (cache s1)(''summary'' \<mapsto> body)\<rparr>, 200, body)"
    using c t body by (simp add: get_summary_def)
  show ?thesis
    using c body g get_summary_again [OF g] by blast
qed

text \<open>
  C5. In every reachable store a cached summary is the summary computed from the current
  list. A successful upload leaves the cache empty, the summary asked next is computed
  from the list just stored, and asking again returns the same body from the cache.
  In any reachable store, a summary request repeated without an upload in between
  returns the same response again and does not touch the list.
\<close>

theorem cache_consistency:
  assumes "reachable s"
  shows "(\<forall>cached. cache s ''summary'' = Some cached \<longrightarrow>
            summarize (transactions s) = Inr cached)
       \<and> (\<forall>repr req s1 b. upload_transactions repr s req = (s1, 200, b) \<longrightarrow>
            cache s1 = Map.empty
            \<and> (\<exists>s2 body. get_summary s1 = Inr (s2, 200, body)
                 \<and> summarize (transactions s1) = Inr body
                 \<and> get_summary s2 = Inr (s2, 200, body)))
       \<and> (\<forall>s1 st body. get_summary s = Inr (s1, st, body) \<longrightarrow>
            get_summary s1 = Inr (s1, st, body) \<and> transactions s1 = transactions s)"
  using reachable_cache [OF assms] summary_after_upload get_summary_again get_summary_cases
  by blast

lemma example_store_eq:
  "example_store =
     \<lparr>transactions =
        [\<lparr>txn_id = JInt 1, amount = Fin 100, category = ''Food'', date = ''2025-01-05''\<rparr>,
         \<lparr>txn_id = JInt 2, amount = Fin 50, category = ''Travel'', date = ''2025-02-10''\<rparr>],
      cache = Map.empty\<rparr>"
proof -
  have "validate_loop no_repr 0 [] (elems example_batch) =
     Inr [\<lparr>txn_id = JInt 1, amount = Fin 100, category = ''Food'', date = ''2025-01-05''\<rparr>,
         \<lparr>txn_id = JInt 2, amount = Fin 50, category = ''Travel'', date = ''2025-02-10''\<rparr>]"
    by code_simp
  moreover have "truthy example_batch" "is_list example_batch" "elems example_batch \<noteq> []"
    by (simp_all add: example_batch_def truthy_def is_list_def elems_def)
  ultimately show ?thesis
    by (simp add: example_store_def upload_transactions_def clear_cache_def init_store_def)
qed

theorem cache_consistency_witness:
  "reachable example_cached
   \<and> cache example_cached ''summary'' \<noteq> None
   \<and> map_option Inr (cache example_cached ''summary'')
       = Some (summarize (transactions example_cached))"
proof -
  obtain body where body: "summarize (transactions example_store) = Inr body"
    using summarize_total by blast
  have g: "get_summary example_store
             = Inr (example_store\<lparr>cache := (cache example_store)(''summary'' \<mapsto> body)\<rparr>, 200, body)"
    using body by (simp add: get_summary_def example_store_eq)
  then have c: "example_cached = example_store\<lparr>cache := (cache example_store)(''summary'' \<mapsto> body)\<rparr>"
    by (simp add: example_cached_def)
  have r0: "reachable example_store"
    using reachable_upload [OF reachable_init, of no_repr "Some example_batch"]
    by (metis example_store_def prod.collapse)
  have r1: "reachable example_cached"
    unfolding c by (rule reachable_summary [OF r0 g])
  have h: "cache example_cached ''summary'' = Some body"
    unfolding c by simp
  have "summarize (transactions example_cached) = Inr body"
    using cache_consistency [OF r1] h by blast
  then show ?thesis
    using r1 h by simp
qed


section \<open>Stored amounts\<close>

lemma validate_txn_not_negative:
  "validate_txn repr idx t = Inr v \<Longrightarrow> \<not> flt (amount v) (Fin 0)"
  by (auto simp: validate_txn_def make_txn_def split: sum.splits if_splits)

lemma validate_loop_not_negative:
  "validate_loop repr idx acc xs = Inr vs \<Longrightarrow>
     \<forall>v \<in> set acc. \<not> flt (amount v) (Fin 0) \<Longrightarrow>
     \<forall>v \<in> set vs. \<not> flt (amount v) (Fin 0)"
proof (induction xs arbitrary: idx acc)
  case Nil
  then show ?case by simp
next
  case (Cons x xs)
  obtain v where v: "validate_txn repr idx x = Inr v"
    using Cons.prems(1) by (cases "validate_txn repr idx x") auto
  have "validate_loop repr (Suc idx) (acc @ [v]) xs = Inr vs"
    using Cons.prems(1) v by simp
  moreover have "\<forall>u \<in> set (acc @ [v]). \<not> flt (amount u) (Fin 0)"
    using Cons.prems(2) validate_txn_not_negative [OF v] by auto
  ultimately show ?case
    by (rule Cons.IH)
qed

text \<open>
  What the amount check of the upload does establish: no reachable store holds an amount
  that compares below zero.
\<close>

lemma reachable_not_negative:
  "reachable s \<Longrightarrow> \<forall>t \<in> set (transactions s). \<not> flt (amount t) (Fin 0)"
proof (induction rule: reachable.induct)
  case reachable_init
  then show ?case by (simp add: init_store_def)
next
  case (reachable_upload s repr req s' r)
  show ?case
  proof (cases "s' = s")
    case True
    then show ?thesis using reachable_upload.IH by simp
  next
    case False
    then obtain data vs where "validate_loop repr 0 [] (elems data) = Inr vs"
      "transactions s' = vs"
      using reachable_upload.hyps(2)
      by (auto simp: upload_transactions_def clear_cache_def
          split: option.splits if_splits sum.splits)
    then show ?thesis
      using validate_loop_not_negative [of repr 0 "[]" "elems data" vs] by simp
  qed
next
  case (reachable_summary s s' r)
  obtain st body where "r = (st, body)" by (cases r)
  then have "transactions s' = transactions s"
    using get_summary_cases [of s s' st body] reachable_summary.hyps(2) by simp
  then show ?case
    using reachable_summary.IH by simp
qed


section \<open>Dictionaries built by a loop\<close>

lemma keys_update_entry:
  "map fst (update_entry k d f kvs) =
     (if k \<in> set (map fst kvs) then map fst kvs else map fst kvs @ [k])"
  by (induction kvs) auto

lemma entry_of_update_entry:
  "entry_of d (update_entry k' d f kvs) k =
     (if k = k' then f (entry_of d kvs k) else entry_of d kvs k)"
  by (induction kvs) (auto simp: entry_of_def)

lemma distinct_update_entry:
  "distinct (map fst kvs) \<Longrightarrow> distinct (map fst (update_entry k d f kvs))"
  by (simp add: keys_update_entry)

lemma key_set_update_entry:
  "fst ` set (update_entry k d f kvs) = insert k (fst ` set kvs)"
  using keys_update_entry [of k d f kvs, THEN arg_cong, of set] by auto

lemma keys_grouped:
  "fst ` set (foldl (\<lambda>kvs t. update_entry (key t) d (upd t) kvs) kvs0 ts)
     = fst ` set kvs0 \<union> key ` set ts"
  by (induction ts arbitrary: kvs0) (simp_all add: key_set_update_entry)

lemma distinct_grouped:
  "distinct (map fst kvs0) \<Longrightarrow>
     distinct (map fst (foldl (\<lambda>kvs t. update_entry (key t) d (upd t) kvs) kvs0 ts))"
  by (induction ts arbitrary: kvs0) (auto simp: distinct_update_entry)

lemma entry_of_grouped:
  "entry_of d (foldl (\<lambda>kvs t. update_entry (key t) d (upd t) kvs) kvs0 ts) k
     = foldl (\<lambda>v t. upd t v) (entry_of d kvs0 k) (filter (\<lambda>t. key t = k) ts)"
  by (induction ts arbitrary: kvs0) (auto simp: entry_of_update_entry)

lemma entry_of_member:
  "distinct (map fst kvs) \<Longrightarrow> (k, v) \<in> set kvs \<Longrightarrow> entry_of d kvs k = v"
  by (simp add: entry_of_def)


section \<open>Properties of the trends\<close>

subsection \<open>Sorting\<close>

lemma py_insort_linorder:
  "py_insort (<) f x ys = insort_key f x ys"
  by (induction ys) auto

lemma py_sort_linorder:
  "py_sort (<) f xs = sort_key f xs"
  by (induction xs) (simp_all add: py_sort_def py_insort_linorder)

subsection \<open>Trends\<close>

lemma strptime_error: "strptime s = Inl e \<Longrightarrow> e = ValueError"
  by (auto simp: strptime_def split: option.splits if_splits prod.splits)

lemma group_by_month_ok:
  "list_all date_parses ts \<Longrightarrow>
     group_by_month md ts =
       Inr (foldl (\<lambda>kvs t. update_entry (month_key t) new_month_data (bump_month t) kvs) md ts)"
  by (induction ts arbitrary: md)
     (auto simp: date_parses_def month_key_def add_to_month_def split: sum.splits)

lemma group_by_month_fail:
  "\<not> list_all date_parses ts \<Longrightarrow> group_by_month md ts = Inl ValueError"
  by (induction ts arbitrary: md)
     (auto simp: date_parses_def bind_err_def split: sum.splits dest: strptime_error)

lemma bump_month_count:
  "md_count (foldl (\<lambda>v t. bump_month t v) v ts) = md_count v + length ts"
  by (induction ts arbitrary: v) (auto simp: bump_month_def)

lemma bump_month_total:
  "md_total (foldl (\<lambda>v t. bump_month t v) v ts) = foldl fadd (md_total v) (map amount ts)"
  by (induction ts arbitrary: v) (auto simp: bump_month_def)

lemma update_entry_nonempty: "update_entry k d f kvs \<noteq> []"
  by (cases kvs) auto

lemma bump_month_categories:
  "ts \<noteq> [] \<Longrightarrow> md_categories (foldl (\<lambda>v t. bump_month t v) v ts) \<noteq> []"
proof (induction ts arbitrary: v rule: rev_induct)
  case Nil
  then show ?case by simp
next
  case (snoc t ts)
  then show ?case by (simp add: bump_month_def update_entry_nonempty)
qed

lemma month_entry_ok:
  assumes "0 < md_count (snd item)" and "md_categories (snd item) \<noteq> []"
  shows "\<exists>e. month_entry item = Inr e \<and> ms_month e = fst item
            \<and> ms_count e = md_count (snd item)
            \<and> ms_total e = round2 (md_total (snd item))"
proof -
  obtain avg where avg: "fdiv (md_total (snd item)) (float_of_nat (md_count (snd item))) = Inr avg"
    using fdiv_nonzero [OF float_of_nat_nonzero [OF assms(1)]] by blast
  obtain top where top: "py_max_key fgt snd (md_categories (snd item)) = Inr top"
    using assms(2) by (cases "md_categories (snd item)") (auto simp: py_max_key_def)
  show ?thesis
    unfolding month_entry_def Let_def avg top by simp
qed

lemma map_err_set:
  "map_err f xs = Inr ys \<Longrightarrow> y \<in> set ys \<Longrightarrow> \<exists>x \<in> set xs. f x = Inr y"
proof -
  assume a: "map_err f xs = Inr ys" and y: "y \<in> set ys"
  have l: "list_all2 (\<lambda>x y. f x = Inr y) xs ys"
    by (rule map_err_Inr_nth [OF a])
  obtain i where i: "i < length ys" "ys ! i = y"
    using y by (auto simp: in_set_conv_nth)
  have "f (xs ! i) = Inr y" "xs ! i \<in> set xs"
    using l i by (auto simp: list_all2_conv_all_nth)
  then show ?thesis by blast
qed

lemma map_err_map:
  assumes "map_err f xs = Inr ys" and "\<And>x y. x \<in> set xs \<Longrightarrow> f x = Inr y \<Longrightarrow> g y = h x"
  shows "map g ys = map h xs"
  using map_err_Inr_nth [OF assms(1)] assms(2)
  by (auto simp: list_all2_conv_all_nth intro!: nth_equalityI)

lemma month_bucket:
  assumes "md = foldl (\<lambda>kvs t. update_entry (month_key t) new_month_data (bump_month t) kvs) [] txns"
      and "(k, v) \<in> set md"
  shows "v = foldl (\<lambda>v t. bump_month t v) new_month_data (in_month k txns)
         \<and> in_month k txns \<noteq> []"
proof -
  have d: "distinct (map fst md)"
    unfolding assms(1) by (rule distinct_grouped) simp
  have "entry_of new_month_data md k = v"
    using entry_of_member [OF d assms(2)] .
  then have v: "v = foldl (\<lambda>v t. bump_month t v) new_month_data (in_month k txns)"
    unfolding assms(1) entry_of_grouped in_month_def by (simp add: entry_of_def)
  have "k \<in> fst ` set md"
    using assms(2) by force
  then have "k \<in> month_key ` set txns"
    unfolding assms(1) keys_grouped by simp
  then have "in_month k txns \<noteq> []"
    by (auto simp: in_month_def filter_empty_conv)
  with v show ?thesis by simp
qed

lemma monthly_trends_ok:
  assumes "list_all date_parses txns"
  shows "\<exists>trends. monthly_trends txns = Inr trends
           \<and> sorted_wrt (<) (map ms_month trends)
           \<and> set (map ms_month trends) = month_key ` set txns
           \<and> (\<forall>e \<in> set trends.
                 ms_count e = length (in_month (ms_month e) txns)
                 \<and> ms_total e = round2 (fsum (map amount (in_month (ms_month e) txns))))"
proof -
  define md where
    "md = foldl (\<lambda>kvs t. update_entry (month_key t) new_month_data (bump_month t) kvs) [] txns"
  have g: "group_by_month [] txns = Inr md"
    unfolding md_def by (rule group_by_month_ok [OF assms])
  have d: "distinct (map fst md)"
    unfolding md_def by (rule distinct_grouped) simp
  have keys: "fst ` set md = month_key ` set txns"
    unfolding md_def keys_grouped by simp
  have item: "\<exists>e. month_entry item = Inr e \<and> ms_month e = fst item
            \<and> ms_count e = length (in_month (fst item) txns)
            \<and> ms_total e = round2 (fsum (map amount (in_month (fst item) txns)))"
    if "item \<in> set md" for item
  proof -
    have b: "snd item = foldl (\<lambda>v t. bump_month t v) new_month_data (in_month (fst item) txns)"
      and n: "in_month (fst item) txns \<noteq> []"
      using month_bucket [OF md_def, of "fst item" "snd item"] that by auto
    have c: "md_count (snd item) = length (in_month (fst item) txns)"
      unfolding b bump_month_count by (simp add: new_month_data_def)
    have t: "md_total (snd item) = fsum (map amount (in_month (fst item) txns))"
      unfolding b bump_month_total by (simp add: new_month_data_def fsum_def)
    have "0 < md_count (snd item)"
      using c n by simp
    moreover have "md_categories (snd item) \<noteq> []"
      unfolding b by (rule bump_month_categories [OF n])
    ultimately show ?thesis
      using month_entry_ok [of item] c t by auto
  qed
  have "\<exists>trends. map_err month_entry (sort_key fst md) = Inr trends"
    by (rule map_err_total) (use item in auto)
  then obtain trends where tr: "map_err month_entry (sort_key fst md) = Inr trends"
    by blast
  have m: "map ms_month trends = map fst (sort_key fst md)"
    by (rule map_err_map [OF tr]) (use item in fastforce)
  have "monthly_trends txns = Inr trends"
    by (simp add: monthly_trends_def g py_sort_linorder tr)
  moreover have "sorted_wrt (<) (map ms_month trends)"
    unfolding m using d by (simp add: strict_sorted_iff distinct_map inj_on_def)
  moreover have "set (map ms_month trends) = month_key ` set txns"
    unfolding m using keys by simp
  moreover have "ms_count e = length (in_month (ms_month e) txns)
                 \<and> ms_total e = round2 (fsum (map amount (in_month (ms_month e) txns)))"
    if e: "e \<in> set trends" for e
  proof -
    obtain it where "it \<in> set md" "month_entry it = Inr e"
      using map_err_set [OF tr e] by auto
    then show ?thesis
      using item [of it] by auto
  qed
  ultimately show ?thesis by blast
qed

lemma digit_val_less: "is_digit c \<Longrightarrow> digit_val c < 10"
  by (auto simp: is_digit_def digit_val_def Let_def)

lemma digit_char_val: "is_digit c \<Longrightarrow> digit_char (10 * n + digit_val c) = c"
proof -
  assume d: "is_digit c"
  then have "(10 * n + digit_val c) mod 10 = digit_val c"
    using digit_val_less [OF d] by simp
  moreover have "48 + digit_val c = of_char c"
    using d by (auto simp: is_digit_def digit_val_def char_code_def Let_def)
  ultimately show ?thesis
    by (simp add: digit_char_def)
qed

lemma digit_char_val0: "is_digit c \<Longrightarrow> digit_char (digit_val c) = c"
  using digit_char_val [of c 0] by simp

lemma not_digit_dash: "\<not> is_digit (CHR ''-'')"
  by (simp add: is_digit_def char_code_def)

lemma digit_char_consts: "digit_char 0 = CHR ''0''" "digit_char (Suc 0) = CHR ''1''"
  by code_simp+

lemma year_digits:
  assumes "is_digit a" "is_digit b" "is_digit c" "is_digit d"
  shows "strftime_Ym (digits_val [a, b, c, d], m, dd)
           = [a, b, c, d, CHR ''-'', digit_char (m div 10), digit_char m]"
proof -
  define y where "y = digits_val [a, b, c, d]"
  have y: "y = 1000 * digit_val a + 100 * digit_val b + 10 * digit_val c + digit_val d"
    by (simp add: y_def digits_val_def)
  note l = digit_val_less [OF assms(1)] digit_val_less [OF assms(2)]
    digit_val_less [OF assms(3)] digit_val_less [OF assms(4)]
  have "y div 1000 = digit_val a"
    using l unfolding y by simp
  moreover have "y div 100 = 10 * digit_val a + digit_val b"
    using l unfolding y by simp
  moreover have "y div 10 = 10 * (10 * digit_val a + digit_val b) + digit_val c"
    using l unfolding y by simp
  moreover have "y = 10 * (100 * digit_val a + 10 * digit_val b + digit_val c) + digit_val d"
    unfolding y by simp
  ultimately have "digit_char (y div 1000) = a" "digit_char (y div 100) = b"
    "digit_char (y div 10) = c" "digit_char y = d"
    using digit_char_val0 [OF assms(1)] digit_char_val [OF assms(2)]
      digit_char_val [OF assms(3)] digit_char_val [OF assms(4)]
    by metis+
  then show ?thesis
    by (simp add: strftime_Ym_def y_def)
qed

lemma month_digits:
  assumes "is_digit e" "is_digit f" "match_month (e # f # r) = Some (m, r')"
    and "match_dash r' \<noteq> None"
  shows "digit_char (m div 10) = e \<and> digit_char m = f \<and> r' = r"
proof -
  have "f \<noteq> CHR ''-''"
    using assms(2) not_digit_dash by auto
  then have c: "(e = CHR ''1'' \<and> m = 10 + digit_val f \<or> e = CHR ''0'' \<and> m = digit_val f) \<and> r' = r"
    using assms(3,4) by (auto simp: match_month_def match_dash_def split: if_splits)
  have "digit_val f < 10"
    by (rule digit_val_less [OF assms(2)])
  then show ?thesis
    using c digit_char_val [OF assms(2), of 1] digit_char_val0 [OF assms(2)]
    by (auto simp: digit_char_consts)
qed

lemma padded_date_month:
  assumes "padded_date s" and "strptime s = Inr dt"
  shows "strftime_Ym dt = take 7 s"
proof -
  have "length s = 10"
    using assms(1) by (simp add: padded_date_def)
  then obtain a b c d p e f q g h where s: "s = [a, b, c, d, p, e, f, q, g, h]"
    by (auto simp: length_Suc_conv eval_nat_numeral)
  have dg: "is_digit a" "is_digit b" "is_digit c" "is_digit d" "p = CHR ''-''"
    "is_digit e" "is_digit f"
    using assms(1) unfolding s by (simp_all add: padded_date_def)
  obtain m r3 where m: "match_month [e, f, q, g, h] = Some (m, r3)" "match_dash r3 \<noteq> None"
    using assms(2) unfolding s
    by (auto simp: strptime_def match_year_def match_dash_def dg split: option.splits if_splits)
  have md: "digit_char (m div 10) = e" "digit_char m = f" "r3 = [q, g, h]"
    using month_digits [OF dg(6,7) m] by auto
  obtain dd where "dt = (digits_val [a, b, c, d], m, dd)"
    using assms(2) m unfolding s
    by (auto simp: strptime_def match_year_def match_dash_def dg split: option.splits if_splits)
  then show ?thesis
    using year_digits [OF dg(1-4), of m dd] md by (simp add: s dg)
qed


text \<open>
  C1, as the code has it. On the empty list the handler answers 200 with the keys
  \<^verbatim>\<open>message\<close> and \<^verbatim>\<open>trends\<close>, the latter an empty list. On a list that is not empty and
  whose dates all parse it answers 200 with the keys \<^verbatim>\<open>monthly_trends\<close>, a list that is
  not empty, and \<^verbatim>\<open>months_count\<close>, the length of that list. When a stored date does not
  parse, the handler raises \<^verbatim>\<open>ValueError\<close>.
\<close>

theorem trends_response:
  "(txns = [] \<longrightarrow>
      get_trends txns = Inr (200, empty_trends)
      \<and> jkeys empty_trends = [''message'', ''trends'']
      \<and> jget empty_trends ''trends'' = Some (JList []))
   \<and> (txns \<noteq> [] \<and> list_all date_parses txns \<longrightarrow>
        (\<exists>trends. trends \<noteq> []
           \<and> get_trends txns =
               Inr (200, JObj [(''monthly_trends'', JList (map month_summary_json trends)),
                               (''months_count'', JInt (int (length trends)))])))
   \<and> (\<not> list_all date_parses txns \<longrightarrow> get_trends txns = Inl ValueError)"
proof (intro conjI impI)
  assume "txns = []"
  then show "get_trends txns = Inr (200, empty_trends)"
    by (simp add: get_trends_def)
next
  show "jkeys empty_trends = [''message'', ''trends'']"
    by (simp add: jkeys_def empty_trends_def)
next
  show "jget empty_trends ''trends'' = Some (JList [])"
    by (simp add: jget_def empty_trends_def)
next
  assume a: "txns \<noteq> [] \<and> list_all date_parses txns"
  then obtain trends where tr: "monthly_trends txns = Inr trends"
    and keys: "set (map ms_month trends) = month_key ` set txns"
    using monthly_trends_ok [of txns] by blast
  have "trends \<noteq> []"
    using keys a by auto
  then show "\<exists>trends. trends \<noteq> []
           \<and> get_trends txns =
               Inr (200, JObj [(''monthly_trends'', JList (map month_summary_json trends)),
                               (''months_count'', JInt (int (length trends)))])"
    using a tr by (auto simp: get_trends_def)
next
  assume a: "\<not> list_all date_parses txns"
  then have "txns \<noteq> []" by auto
  then show "get_trends txns = Inl ValueError"
    using group_by_month_fail [OF a, of "[]"]
    by (simp add: get_trends_def monthly_trends_def)
qed

theorem trends_response_witness:
  "example_txns \<noteq> [] \<and> list_all date_parses example_txns
   \<and> map_sum id (\<lambda>r. (fst r, jkeys (snd r))) (get_trends example_txns)
       = Inr (200, [''monthly_trends'', ''months_count''])"
proof -
  have h: "example_txns \<noteq> [] \<and> list_all date_parses example_txns"
    by code_simp
  then obtain trends where
    "get_trends example_txns =
       Inr (200, JObj [(''monthly_trends'', JList (map month_summary_json trends)),
                       (''months_count'', JInt (int (length trends)))])"
    using trends_response [of example_txns] by blast
  then show ?thesis
    using h by (simp add: jkeys_def)
qed

text \<open>On the empty list the body has neither of the two keys of the claim.\<close>

theorem trends_empty_store_keys:
  "get_trends [] = Inr (200, empty_trends)
   \<and> jget empty_trends ''monthly_trends'' = None
   \<and> jget empty_trends ''months_count'' = None"
  by (simp add: get_trends_def jget_def empty_trends_def)

text \<open>
  C7, as the code has it. When every stored date parses, the buckets come out in
  strictly ascending order of their month key; every transaction has the bucket of its
  month key, which is the year and month of its parsed date printed on four and two
  digits; a bucket counts exactly the transactions with its key and totals their
  amounts; and the key is the first seven characters of the stored date when that date
  is written with a two-digit month and day (and a year from 1000 on).
\<close>

theorem trends_buckets:
  assumes "list_all date_parses txns"
  shows "\<exists>trends. monthly_trends txns = Inr trends
           \<and> (txns \<noteq> [] \<longrightarrow> get_trends txns =
                 Inr (200, JObj [(''monthly_trends'', JList (map month_summary_json trends)),
                                 (''months_count'', JInt (int (length trends)))]))
           \<and> sorted_wrt (<) (map ms_month trends)
           \<and> (\<forall>t \<in> set txns. month_key t \<in> set (map ms_month trends))
           \<and> (\<forall>e \<in> set trends.
                 ms_count e = length (in_month (ms_month e) txns)
                 \<and> ms_total e = round2 (fsum (map amount (in_month (ms_month e) txns))))
           \<and> (\<forall>t \<in> set txns. padded_date (date t) \<longrightarrow> month_key t = take 7 (date t))"
proof -
  obtain trends where tr: "monthly_trends txns = Inr trends"
    and s: "sorted_wrt (<) (map ms_month trends)"
    and keys: "set (map ms_month trends) = month_key ` set txns"
    and b: "\<forall>e \<in> set trends.
                 ms_count e = length (in_month (ms_month e) txns)
                 \<and> ms_total e = round2 (fsum (map amount (in_month (ms_month e) txns)))"
    using monthly_trends_ok [OF assms] by blast
  have p: "month_key t = take 7 (date t)"
    if t: "t \<in> set txns" and pd: "padded_date (date t)" for t
  proof -
    have "date_parses t"
      using assms t by (simp add: list_all_iff)
    then obtain dt where dt: "strptime (date t) = Inr dt"
      by (cases "strptime (date t)") (auto simp: date_parses_def)
    show ?thesis
      using padded_date_month [OF pd dt] by (simp add: month_key_def dt)
  qed
  have "txns \<noteq> [] \<longrightarrow> get_trends txns =
                 Inr (200, JObj [(''monthly_trends'', JList (map month_summary_json trends)),
                                 (''months_count'', JInt (int (length trends)))])"
    using tr by (simp add: get_trends_def)
  then show ?thesis
    using tr s keys b p by auto
qed

theorem trends_buckets_witness:
  "list_all date_parses example_txns
   \<and> map_sum id (map (\<lambda>e. (ms_month e, ms_count e))) (monthly_trends example_txns)
       = Inr [(''2025-01'', 2), (''2025-02'', 1)]
   \<and> padded_date (date (hd example_txns))
   \<and> month_key (hd example_txns) = take 7 (date (hd example_txns))"
proof -
  have h: "list_all date_parses example_txns"
    by code_simp
  have v: "map_sum id (map (\<lambda>e. (ms_month e, ms_count e))) (monthly_trends example_txns)
       = Inr [(''2025-01'', 2), (''2025-02'', 1)]"
    by code_simp
  have m: "hd example_txns \<in> set example_txns"
    by (simp add: example_txns_def)
  have p: "padded_date (date (hd example_txns))"
    by code_simp
  have "month_key (hd example_txns) = take 7 (date (hd example_txns))"
    using trends_buckets [OF h] m p by blast
  then show ?thesis
    using h v p by simp
qed

text \<open>
  A stored date with a one-digit month parses, and its bucket key is not the prefix of
  the stored string.
\<close>

theorem trends_one_digit_month_key:
  "strptime ''2025-1-05'' = Inr (2025, 1, 5)
   \<and> map_sum id (map ms_month)
        (monthly_trends
           [\<lparr>txn_id = JInt 1, amount = Fin 100, category = ''Food'', date = ''2025-1-05''\<rparr>])
       = Inr [''2025-01'']
   \<and> take 7 ''2025-1-05'' \<noteq> ''2025-01''"
  by code_simp


section \<open>Properties of the category details\<close>

subsection \<open>The order of floats that are numbers\<close>

lemma flt_irrefl: "\<not> flt a a"
  by (cases a) auto

lemma flt_asym: "flt a b \<Longrightarrow> \<not> flt b a"
  by (cases a; cases b) auto

lemma flt_negtrans:
  "is_number b \<Longrightarrow> \<not> flt a b \<Longrightarrow> \<not> flt b c \<Longrightarrow> \<not> flt a c"
  by (cases a; cases b; cases c) (auto simp: is_number_def)

lemma fge_iff_not_flt: "is_number a \<Longrightarrow> is_number b \<Longrightarrow> fge a b \<longleftrightarrow> \<not> flt a b"
  by (cases a; cases b) (auto simp: is_number_def)

lemma fge_number: "fge a b \<Longrightarrow> is_number a \<and> is_number b"
  by (cases a; cases b) (auto simp: is_number_def)

subsection \<open>\<^verbatim>\<open>max\<close> and \<^verbatim>\<open>min\<close> over numbers\<close>

lemma py_best_member: "py_best better f cur xs \<in> set (cur # xs)"
  by (induction xs arbitrary: cur) auto

lemma py_best_max:
  assumes "\<forall>x \<in> set (cur # xs). is_number (f x)"
  shows "\<forall>x \<in> set (cur # xs). \<not> flt (f (py_best fgt f cur xs)) (f x)"
  using assms
proof (induction xs arbitrary: cur)
  case Nil
  then show ?case by (simp add: flt_irrefl)
next
  case (Cons y ys)
  define nxt where "nxt = (if fgt (f y) (f cur) then y else cur)"
  have n: "\<forall>x \<in> set (nxt # ys). is_number (f x)"
    using Cons.prems by (auto simp: nxt_def)
  have ih: "\<forall>x \<in> set (nxt # ys). \<not> flt (f (py_best fgt f nxt ys)) (f x)"
    by (rule Cons.IH [OF n])
  have b: "is_number (f nxt)"
    using n by simp
  have m: "\<not> flt (f nxt) (f cur) \<and> \<not> flt (f nxt) (f y)"
    by (auto simp: nxt_def fgt_def flt_irrefl dest: flt_asym)
  have "\<not> flt (f (py_best fgt f nxt ys)) (f nxt)"
    using ih by simp
  then have "\<not> flt (f (py_best fgt f nxt ys)) (f cur) \<and> \<not> flt (f (py_best fgt f nxt ys)) (f y)"
    using m flt_negtrans [OF b] by blast
  then show ?case
    using ih by (auto simp: nxt_def)
qed

lemma py_best_min:
  assumes "\<forall>x \<in> set (cur # xs). is_number (f x)"
  shows "\<forall>x \<in> set (cur # xs). \<not> flt (f x) (f (py_best flt f cur xs))"
  using assms
proof (induction xs arbitrary: cur)
  case Nil
  then show ?case by (simp add: flt_irrefl)
next
  case (Cons y ys)
  define nxt where "nxt = (if flt (f y) (f cur) then y else cur)"
  have n: "\<forall>x \<in> set (nxt # ys). is_number (f x)"
    using Cons.prems by (auto simp: nxt_def)
  have ih: "\<forall>x \<in> set (nxt # ys). \<not> flt (f x) (f (py_best flt f nxt ys))"
    by (rule Cons.IH [OF n])
  have b: "is_number (f nxt)"
    using n by simp
  have m: "\<not> flt (f cur) (f nxt) \<and> \<not> flt (f y) (f nxt)"
    by (auto simp: nxt_def flt_irrefl dest: flt_asym)
  have "\<not> flt (f nxt) (f (py_best flt f nxt ys))"
    using ih by simp
  then have "\<not> flt (f cur) (f (py_best flt f nxt ys)) \<and> \<not> flt (f y) (f (py_best flt f nxt ys))"
    using m flt_negtrans [OF b] by blast
  then show ?case
    using ih by (auto simp: nxt_def)
qed

lemma py_max_numbers:
  assumes "xs \<noteq> []" and "\<forall>a \<in> set xs. is_number a"
  shows "\<exists>m. py_max xs = Inr m \<and> m \<in> set xs \<and> (\<forall>a \<in> set xs. fge m a)"
proof -
  obtain x r where xs: "xs = x # r"
    using assms(1) by (cases xs) auto
  define m where "m = py_best fgt (\<lambda>a. a) x r"
  have "m \<in> set xs"
    unfolding m_def xs by (rule py_best_member)
  moreover have "\<forall>a \<in> set xs. \<not> flt m a"
    using py_best_max [of x r "\<lambda>a. a"] assms(2) unfolding m_def xs by simp
  ultimately have "m \<in> set xs \<and> (\<forall>a \<in> set xs. fge m a)"
    using assms(2) by (auto simp: fge_iff_not_flt)
  then show ?thesis
    by (simp add: py_max_def py_max_key_def xs m_def)
qed

lemma py_min_numbers:
  assumes "xs \<noteq> []" and "\<forall>a \<in> set xs. is_number a"
  shows "\<exists>m. py_min xs = Inr m \<and> m \<in> set xs \<and> (\<forall>a \<in> set xs. fge a m)"
proof -
  obtain x r where xs: "xs = x # r"
    using assms(1) by (cases xs) auto
  define m where "m = py_best flt (\<lambda>a. a) x r"
  have "m \<in> set xs"
    unfolding m_def xs by (rule py_best_member)
  moreover have "\<forall>a \<in> set xs. \<not> flt a m"
    using py_best_min [of x r "\<lambda>a. a"] assms(2) unfolding m_def xs by simp
  ultimately have "m \<in> set xs \<and> (\<forall>a \<in> set xs. fge a m)"
    using assms(2) by (auto simp: fge_iff_not_flt)
  then show ?thesis
    by (simp add: py_min_def py_min_key_def xs m_def)
qed

text \<open>
  C8. For a category with at least one transaction whose label is equal to it, in a
  store whose amounts are numbers, the answer is a 200 whose \<^verbatim>\<open>transactions\<close> are the
  matching ones in ascending order of their date strings (equal dates in stored order),
  whose \<^verbatim>\<open>highest\<close> and \<^verbatim>\<open>lowest\<close> are amounts of matching transactions as they are
  stored, no other matching amount being greater (smaller), and whose \<^verbatim>\<open>total\<close> and
  \<^verbatim>\<open>average\<close> are the sum and the mean of the matching amounts rounded to two places.
\<close>

theorem category_details_ok:
  assumes "filter (\<lambda>t. category t = cat) txns = matches"
      and "matches \<noteq> []"
      and "\<forall>t \<in> set matches. is_number (amount t)"
  shows "\<exists>avg highest lowest sorted_txns.
           get_category_details txns cat =
             Inr (200, JObj [(''category'', JStr cat),
                             (''total'', JFloat (round2 (fsum (map amount matches)))),
                             (''count'', JInt (int (length matches))),
                             (''average'', JFloat (round2 avg)),
                             (''highest'', JFloat highest),
                             (''lowest'', JFloat lowest),
                             (''transactions'', JList (map txn_json sorted_txns))])
           \<and> fdiv (fsum (map amount matches)) (float_of_nat (length matches)) = Inr avg
           \<and> sorted (map date sorted_txns)
           \<and> set sorted_txns = set matches \<and> length sorted_txns = length matches
           \<and> (\<forall>d. filter (\<lambda>t. date t = d) sorted_txns = filter (\<lambda>t. date t = d) matches)
           \<and> highest \<in> set (map amount matches)
           \<and> (\<forall>a \<in> set (map amount matches). fge highest a)
           \<and> lowest \<in> set (map amount matches)
           \<and> (\<forall>a \<in> set (map amount matches). fge a lowest)"
proof -
  have ne: "txns \<noteq> []"
    using assms(1,2) by auto
  have n: "map amount matches \<noteq> []" "\<forall>a \<in> set (map amount matches). is_number a"
    using assms(2,3) by auto
  obtain avg where avg: "fdiv (fsum (map amount matches)) (float_of_nat (length matches)) = Inr avg"
    using fdiv_nonzero [OF float_of_nat_nonzero, of "length matches"] assms(2) by auto
  obtain hi where hi: "py_max (map amount matches) = Inr hi"
    "hi \<in> set (map amount matches)" "\<forall>a \<in> set (map amount matches). fge hi a"
    using py_max_numbers [OF n] by blast
  obtain lo where lo: "py_min (map amount matches) = Inr lo"
    "lo \<in> set (map amount matches)" "\<forall>a \<in> set (map amount matches). fge a lo"
    using py_min_numbers [OF n] by blast
  have "get_category_details txns cat =
             Inr (200, JObj [(''category'', JStr cat),
                             (''total'', JFloat (round2 (fsum (map amount matches)))),
                             (''count'', JInt (int (length matches))),
                             (''average'', JFloat (round2 avg)),
                             (''highest'', JFloat hi),
                             (''lowest'', JFloat lo),
                             (''transactions'', JList (map txn_json (sort_key date matches)))])"
    using ne assms(2) avg hi(1) lo(1)
    by (simp add: get_category_details_def assms(1) Let_def py_sort_linorder)
  moreover have "sorted (map date (sort_key date matches))"
    by (rule sorted_sort_key)
  moreover have "\<forall>d. filter (\<lambda>t. date t = d) (sort_key date matches)
                    = filter (\<lambda>t. date t = d) matches"
    by (simp add: sort_key_stable)
  ultimately show ?thesis
    using avg hi(2,3) lo(2,3) by (intro exI [of _ avg] exI [of _ hi] exI [of _ lo]
        exI [of _ "sort_key date matches"]) simp
qed

theorem category_details_ok_witness:
  "filter (\<lambda>t. category t = ''Food'') example_details
     = [example_details ! 0, example_details ! 2]
   \<and> list_all (\<lambda>t. is_number (amount t)) [example_details ! 0, example_details ! 2]
   \<and> map_sum id (\<lambda>r. (fst r, jget (snd r) ''highest'', jget (snd r) ''lowest'',
                         jget (snd r) ''total''))
        (get_category_details example_details ''Food'')
       = Inr (200, Some (JFloat (Fin (5 / 2))), Some (JFloat (Fin (201 / 200))),
              Some (JFloat (Fin (7 / 2))))"
proof -
  have h1: "filter (\<lambda>t. category t = ''Food'') example_details
     = [example_details ! 0, example_details ! 2]"
    by (simp add: example_details_def)
  have h2: "[example_details ! 0, example_details ! 2] \<noteq> []"
    by simp
  have h3: "\<forall>t \<in> set [example_details ! 0, example_details ! 2]. is_number (amount t)"
    by (simp add: example_details_def is_number_def)
  have am: "map amount [example_details ! 0, example_details ! 2] = [Fin (201 / 200), Fin (5 / 2)]"
    by (simp add: example_details_def)
  obtain avg hi lo srt where
    eq: "get_category_details example_details ''Food'' =
             Inr (200, JObj [(''category'', JStr ''Food''),
                             (''total'', JFloat (round2 (fsum [Fin (201 / 200), Fin (5 / 2)]))),
                             (''count'', JInt (int (length [example_details ! 0, example_details ! 2]))),
                             (''average'', JFloat (round2 avg)),
                             (''highest'', JFloat hi),
                             (''lowest'', JFloat lo),
                             (''transactions'', JList (map txn_json srt))])"
    and hi: "hi \<in> set [Fin (201 / 200), Fin (5 / 2)]"
            "\<forall>a \<in> set [Fin (201 / 200), Fin (5 / 2)]. fge hi a"
    and lo: "lo \<in> set [Fin (201 / 200), Fin (5 / 2)]"
            "\<forall>a \<in> set [Fin (201 / 200), Fin (5 / 2)]. fge a lo"
    using category_details_ok [OF h1 h2 h3] unfolding am by blast
  have "hi = Fin (5 / 2)"
    using hi by auto
  moreover have "lo = Fin (201 / 200)"
    using lo by auto
  moreover have "round2 (fsum [Fin (201 / 200), Fin (5 / 2)]) = Fin (7 / 2)"
    by code_simp
  ultimately show ?thesis
    using eq h1 h3 by (simp add: jget_def list_all_iff)
qed


section \<open>Properties of the summary\<close>

subsection \<open>The stable sort on numbers\<close>

lemma set_py_insort: "set (py_insort lt f x ys) = insert x (set ys)"
  by (induction ys) auto

lemma set_py_sort: "set (py_sort lt f xs) = set xs"
  by (induction xs) (simp_all add: py_sort_def set_py_insort)

lemma py_insort_ascending:
  assumes "sorted_wrt (\<lambda>a b. \<not> flt (f b) (f a)) ys"
      and "\<forall>y \<in> set ys. is_number (f y)"
  shows "sorted_wrt (\<lambda>a b. \<not> flt (f b) (f a)) (py_insort flt f x ys)"
  using assms
proof (induction ys)
  case Nil
  then show ?case by simp
next
  case (Cons y ys)
  show ?case
  proof (cases "flt (f y) (f x)")
    case True
    then have "\<not> flt (f x) (f y)"
      by (rule flt_asym)
    then show ?thesis
      using True Cons by (auto simp: set_py_insort)
  next
    case False
    have "\<not> flt (f z) (f x)" if z: "z \<in> set ys" for z
    proof -
      have "\<not> flt (f z) (f y)"
        using Cons.prems(1) z by simp
      moreover have "is_number (f y)"
        using Cons.prems(2) by simp
      ultimately show ?thesis
        using flt_negtrans False by blast
    qed
    then show ?thesis
      using False Cons.prems(1) by auto
  qed
qed

lemma py_sort_ascending:
  assumes "\<forall>x \<in> set xs. is_number (f x)"
  shows "sorted_wrt (\<lambda>a b. \<not> flt (f b) (f a)) (py_sort flt f xs)"
  using assms
proof (induction xs)
  case Nil
  then show ?case by (simp add: py_sort_def)
next
  case (Cons x xs)
  have "sorted_wrt (\<lambda>a b. \<not> flt (f b) (f a)) (py_insort flt f x (py_sort flt f xs))"
    by (rule py_insort_ascending) (use Cons in \<open>auto simp: set_py_sort\<close>)
  then show ?case
    by (simp add: py_sort_def)
qed

lemma py_insort_stable:
  assumes "sorted_wrt (\<lambda>a b. f a = f b \<longrightarrow> Q a b) ys"
      and "\<forall>y \<in> set ys. Q x y"
  shows "sorted_wrt (\<lambda>a b. f a = f b \<longrightarrow> Q a b) (py_insort flt f x ys)"
  using assms
proof (induction ys)
  case Nil
  then show ?case by simp
next
  case (Cons y ys)
  show ?case
  proof (cases "flt (f y) (f x)")
    case True
    then have "f y \<noteq> f x"
      using flt_irrefl by metis
    then show ?thesis
      using True Cons by (auto simp: set_py_insort)
  next
    case False
    then show ?thesis
      using Cons.prems by auto
  qed
qed

lemma py_sort_stable:
  assumes "sorted_wrt Q xs"
  shows "sorted_wrt (\<lambda>a b. f a = f b \<longrightarrow> Q a b) (py_sort flt f xs)"
  using assms
proof (induction xs)
  case Nil
  then show ?case by (simp add: py_sort_def)
next
  case (Cons x xs)
  have "sorted_wrt (\<lambda>a b. f a = f b \<longrightarrow> Q a b) (py_insort flt f x (py_sort flt f xs))"
    by (rule py_insort_stable) (use Cons in \<open>auto simp: set_py_sort\<close>)
  then show ?case
    by (simp add: py_sort_def)
qed

lemma py_sort_reverse_descending:
  assumes "\<forall>x \<in> set xs. is_number (f x)"
  shows "sorted_wrt (\<lambda>a b. fge (f a) (f b)) (py_sort_reverse flt f xs)"
proof -
  have "sorted_wrt (\<lambda>a b. \<not> flt (f b) (f a)) (py_sort flt f (rev xs))"
    by (rule py_sort_ascending) (use assms in auto)
  then have "sorted_wrt (\<lambda>a b. \<not> flt (f a) (f b)) (py_sort_reverse flt f xs)"
    by (simp add: py_sort_reverse_def sorted_wrt_rev)
  moreover have "\<forall>x \<in> set (py_sort_reverse flt f xs). is_number (f x)"
    using assms by (simp add: py_sort_reverse_def set_py_sort)
  ultimately show ?thesis
    by (rule_tac sorted_wrt_mono_rel [rotated]) (auto simp: fge_iff_not_flt)
qed

lemma py_sort_reverse_stable:
  assumes "sorted_wrt Q xs"
  shows "sorted_wrt (\<lambda>a b. f a = f b \<longrightarrow> Q a b) (py_sort_reverse flt f xs)"
proof -
  have "sorted_wrt (\<lambda>a b. Q b a) (rev xs)"
    using assms by (simp add: sorted_wrt_rev)
  then have "sorted_wrt (\<lambda>a b. f a = f b \<longrightarrow> Q b a) (py_sort flt f (rev xs))"
    by (rule py_sort_stable)
  then have "sorted_wrt (\<lambda>a b. f b = f a \<longrightarrow> Q a b) (py_sort_reverse flt f xs)"
    by (simp add: py_sort_reverse_def sorted_wrt_rev)
  then show ?thesis
    by (rule sorted_wrt_mono_rel [rotated]) auto
qed

subsection \<open>Categories in the order of their first transaction\<close>

lemma first_pos_old:
  "c \<in> category ` set ts \<Longrightarrow> first_pos (ts @ us) c = first_pos ts c"
  by (induction ts) (auto simp: first_pos_def)

lemma first_pos_less:
  "c \<in> category ` set ts \<Longrightarrow> first_pos ts c < length ts"
  by (induction ts) (auto simp: first_pos_def)

lemma first_pos_new:
  "category t \<notin> category ` set ts \<Longrightarrow> first_pos (ts @ [t]) (category t) = length ts"
  by (induction ts) (auto simp: first_pos_def)

lemma group_by_category_snoc:
  "group_by_category (ts @ [t]) = add_to_category (group_by_category ts) t"
  by (simp add: group_by_category_def)

lemma group_by_category_fold:
  "group_by_category ts =
     foldl (\<lambda>kvs t. update_entry (category t) new_cat_data (bump_category t) kvs) [] ts"
  by (simp add: group_by_category_def add_to_category_def [abs_def])

lemma category_keys: "fst ` set (group_by_category ts) = category ` set ts"
  unfolding group_by_category_fold keys_grouped by simp

lemma category_keys_distinct: "distinct (map fst (group_by_category ts))"
  unfolding group_by_category_fold by (rule distinct_grouped) simp

lemma category_keys_order:
  "sorted_wrt (\<lambda>k k'. first_pos ts k < first_pos ts k') (map fst (group_by_category ts))"
proof (induction ts rule: rev_induct)
  case Nil
  then show ?case by (simp add: group_by_category_def)
next
  case (snoc t ts)
  let ?keys = "map fst (group_by_category ts)"
  have old: "sorted_wrt (\<lambda>k k'. first_pos (ts @ [t]) k < first_pos (ts @ [t]) k') ?keys"
    using snoc
  proof (rule sorted_wrt_mono_rel [rotated])
    fix k k'
    assume "k \<in> set ?keys" "k' \<in> set ?keys" "first_pos ts k < first_pos ts k'"
    then show "first_pos (ts @ [t]) k < first_pos (ts @ [t]) k'"
      using category_keys [of ts] by (simp add: first_pos_old)
  qed
  show ?case
  proof (cases "category t \<in> set ?keys")
    case True
    then show ?thesis
      using old by (simp add: group_by_category_snoc add_to_category_def keys_update_entry)
  next
    case False
    then have n: "category t \<notin> category ` set ts"
      using category_keys [of ts] by simp
    have "first_pos (ts @ [t]) k < first_pos (ts @ [t]) (category t)" if "k \<in> set ?keys" for k
      using that category_keys [of ts] first_pos_less [of k ts]
      by (simp add: first_pos_old first_pos_new [OF n])
    then show ?thesis
      using old False
      by (simp add: group_by_category_snoc add_to_category_def keys_update_entry
          sorted_wrt_append)
  qed
qed

subsection \<open>Category totals\<close>

lemma bump_category_total:
  "cat_total (foldl (\<lambda>v t. bump_category t v) v ts) = foldl fadd (cat_total v) (map amount ts)"
  by (induction ts arbitrary: v) (auto simp: bump_category_def)

lemma category_total:
  assumes "item \<in> set (group_by_category ts)"
  shows "cat_total (snd item) = fsum (map amount (filter (\<lambda>t. category t = fst item) ts))"
proof -
  have "entry_of new_cat_data (group_by_category ts) (fst item) = snd item"
    using entry_of_member [OF category_keys_distinct, of "fst item" "snd item" ts] assms
    by simp
  then have "snd item = foldl (\<lambda>v t. bump_category t v) new_cat_data
                          (filter (\<lambda>t. category t = fst item) ts)"
    unfolding group_by_category_fold entry_of_grouped by (simp add: entry_of_def)
  then show ?thesis
    using bump_category_total [of new_cat_data "filter (\<lambda>t. category t = fst item) ts"]
    by (simp add: new_cat_data_def fsum_def)
qed

lemma fadd_nonneg: "fge a (Fin 0) \<Longrightarrow> fge b (Fin 0) \<Longrightarrow> fge (fadd a b) (Fin 0)"
  by (cases a; cases b) auto

lemma foldl_fadd_nonneg:
  "fge acc (Fin 0) \<Longrightarrow> \<forall>a \<in> set xs. fge a (Fin 0) \<Longrightarrow> fge (foldl fadd acc xs) (Fin 0)"
  by (induction xs arbitrary: acc) (auto simp: fadd_nonneg)

lemma fsum_nonneg: "\<forall>a \<in> set xs. fge a (Fin 0) \<Longrightarrow> fge (fsum xs) (Fin 0)"
  unfolding fsum_def by (rule foldl_fadd_nonneg) auto

lemma round2_number: "is_number a \<Longrightarrow> is_number (round2 a)"
  by (cases a) (auto simp: is_number_def)

lemma summary_list_sorted:
  assumes "\<forall>t \<in> set txns. fge (amount t) (Fin 0)"
  shows "\<exists>summary. summary_list txns = Inr summary
           \<and> set (map cs_category summary) = category ` set txns
           \<and> (\<forall>e \<in> set summary.
                 cs_total e
                   = round2 (fsum (map amount (filter (\<lambda>t. category t = cs_category e) txns))))
           \<and> sorted_wrt (\<lambda>a b. fge (cs_total a) (cs_total b)) summary
           \<and> sorted_wrt (\<lambda>a b. cs_total a = cs_total b \<longrightarrow>
                 first_pos txns (cs_category a) < first_pos txns (cs_category b)) summary"
proof -
  define cd where "cd = group_by_category txns"
  define g where "g = grand_total_of cd"
  obtain es where es: "map_err (summary_entry g) cd = Inr es"
    using map_err_total [of cd "summary_entry g"] summary_entry_total by blast
  have entry: "cs_category e = fst item \<and> cs_total e = round2 (cat_total (snd item))"
    if "summary_entry g item = Inr e" for item e
    using summary_entry_total [of g item] that by auto
  have cats: "map cs_category es = map fst cd"
    by (rule map_err_map [OF es]) (use entry in auto)
  have tot: "cs_total e
               = round2 (fsum (map amount (filter (\<lambda>t. category t = cs_category e) txns)))"
    if e: "e \<in> set es" for e
  proof -
    obtain item where item: "item \<in> set cd" "summary_entry g item = Inr e"
      using map_err_set [OF es e] by auto
    show ?thesis
      using entry [OF item(2)] category_total [of item txns] item(1) by (simp add: cd_def)
  qed
  have num: "is_number (cs_total e)" if e: "e \<in> set es" for e
  proof -
    have "fge (fsum (map amount (filter (\<lambda>t. category t = cs_category e) txns))) (Fin 0)"
      by (rule fsum_nonneg) (use assms in auto)
    then show ?thesis
      using tot [OF e] round2_number fge_number by metis
  qed
  define summary where "summary = py_sort_reverse flt cs_total es"
  have sl: "summary_list txns = Inr summary"
    using es by (simp add: summary_list_def Let_def cd_def g_def summary_def)
  have st: "set summary = set es"
    by (simp add: summary_def py_sort_reverse_def set_py_sort)
  have "sorted_wrt (\<lambda>k k'. first_pos txns k < first_pos txns k') (map cs_category es)"
    unfolding cats cd_def by (rule category_keys_order)
  then have "sorted_wrt (\<lambda>a b. first_pos txns (cs_category a) < first_pos txns (cs_category b)) es"
    by (simp add: sorted_wrt_map)
  then have ties: "sorted_wrt (\<lambda>a b. cs_total a = cs_total b \<longrightarrow>
                 first_pos txns (cs_category a) < first_pos txns (cs_category b)) summary"
    unfolding summary_def by (rule py_sort_reverse_stable)
  have desc: "sorted_wrt (\<lambda>a b. fge (cs_total a) (cs_total b)) summary"
    unfolding summary_def by (rule py_sort_reverse_descending) (use num in auto)
  have "set (map cs_category summary) = category ` set txns"
    using st cats category_keys [of txns]
    by (metis cd_def list.set_map)
  then show ?thesis
    using sl st tot ties desc by auto
qed

lemma get_summary_reachable:
  assumes "reachable s" and "transactions s \<noteq> []" and "summarize (transactions s) = Inr body"
  shows "\<exists>s'. get_summary s = Inr (s', 200, body)"
proof (cases "cache s ''summary''")
  case None
  then show ?thesis
    using assms(2,3) by (simp add: get_summary_def)
next
  case (Some cached)
  then have "cached = body"
    using reachable_cache [OF assms(1) Some] assms(3) by simp
  then show ?thesis
    using Some by (simp add: get_summary_def)
qed

text \<open>
  C6. In a reachable store whose list is not empty and whose amounts are all at least
  zero, the body of the summary holds under \<^verbatim>\<open>summary\<close> one entry per stored category,
  with the rounded sum of the amounts of the category as its \<^verbatim>\<open>total\<close>; the entries are
  in descending order of \<^verbatim>\<open>total\<close>, and of two entries with equal \<^verbatim>\<open>total\<close> the one
  whose category occurs first in the stored list comes first.
\<close>

theorem summary_sorted:
  assumes "reachable s"
      and "transactions s \<noteq> []"
      and "\<forall>t \<in> set (transactions s). fge (amount t) (Fin 0)"
  shows "\<exists>s' summary rest.
           get_summary s =
             Inr (s', 200, JObj ((''summary'', JList (map cat_summary_json summary)) # rest))
           \<and> set (map cs_category summary) = category ` set (transactions s)
           \<and> (\<forall>e \<in> set summary.
                 cs_total e = round2 (fsum (map amount
                     (filter (\<lambda>t. category t = cs_category e) (transactions s)))))
           \<and> sorted_wrt (\<lambda>a b. fge (cs_total a) (cs_total b)) summary
           \<and> sorted_wrt (\<lambda>a b. cs_total a = cs_total b \<longrightarrow>
                 first_pos (transactions s) (cs_category a)
                   < first_pos (transactions s) (cs_category b)) summary"
proof -
  obtain summary where sl: "summary_list (transactions s) = Inr summary"
    and p: "set (map cs_category summary) = category ` set (transactions s)"
      "\<forall>e \<in> set summary.
         cs_total e = round2 (fsum (map amount
            (filter (\<lambda>t. category t = cs_category e) (transactions s))))"
      "sorted_wrt (\<lambda>a b. fge (cs_total a) (cs_total b)) summary"
      "sorted_wrt (\<lambda>a b. cs_total a = cs_total b \<longrightarrow>
                 first_pos (transactions s) (cs_category a)
                   < first_pos (transactions s) (cs_category b)) summary"
    using summary_list_sorted [OF assms(3)] by blast
  obtain body where body: "summarize (transactions s) = Inr body"
    using summarize_total by blast
  then obtain rest where
    "body = JObj ((''summary'', JList (map cat_summary_json summary)) # rest)"
    using sl by (auto simp: summarize_def Let_def bind_err_def split: sum.splits if_splits)
  then obtain s' where
    "get_summary s =
       Inr (s', 200, JObj ((''summary'', JList (map cat_summary_json summary)) # rest))"
    using get_summary_reachable [OF assms(1,2) body] by blast
  then show ?thesis
    using p by blast
qed

lemma example_ties_store_eq:
  "example_ties_store =
     \<lparr>transactions =
        [\<lparr>txn_id = JInt 1, amount = Fin 30, category = ''Food'', date = ''2025-01-05''\<rparr>,
         \<lparr>txn_id = JInt 2, amount = Fin 100, category = ''Rent'', date = ''2025-01-06''\<rparr>,
         \<lparr>txn_id = JInt 3, amount = Fin 100, category = ''Travel'', date = ''2025-01-07''\<rparr>,
         \<lparr>txn_id = JInt 4, amount = Fin 20, category = ''Food'', date = ''2025-01-08''\<rparr>],
      cache = Map.empty\<rparr>"
proof -
  have "validate_loop no_repr 0 [] (elems example_ties) =
     Inr [\<lparr>txn_id = JInt 1, amount = Fin 30, category = ''Food'', date = ''2025-01-05''\<rparr>,
         \<lparr>txn_id = JInt 2, amount = Fin 100, category = ''Rent'', date = ''2025-01-06''\<rparr>,
         \<lparr>txn_id = JInt 3, amount = Fin 100, category = ''Travel'', date = ''2025-01-07''\<rparr>,
         \<lparr>txn_id = JInt 4, amount = Fin 20, category = ''Food'', date = ''2025-01-08''\<rparr>]"
    by code_simp
  moreover have "truthy example_ties" "is_list example_ties" "elems example_ties \<noteq> []"
    by (simp_all add: example_ties_def truthy_def is_list_def elems_def)
  ultimately show ?thesis
    by (simp add: example_ties_store_def upload_transactions_def clear_cache_def init_store_def)
qed

theorem summary_sorted_witness:
  "reachable example_ties_store
   \<and> transactions example_ties_store \<noteq> []
   \<and> list_all (\<lambda>t. fge (amount t) (Fin 0)) (transactions example_ties_store)
   \<and> map_sum id (map (\<lambda>e. (cs_category e, cs_total e)))
        (summary_list (transactions example_ties_store))
       = Inr [(''Rent'', Fin 100), (''Travel'', Fin 100), (''Food'', Fin 50)]
   \<and> jget (snd (snd (projr (get_summary example_ties_store)))) ''summary'' \<noteq> None"
proof -
  have r: "reachable example_ties_store"
    using reachable_upload [OF reachable_init, of no_repr "Some example_ties"]
    by (metis example_ties_store_def prod.collapse)
  have n: "transactions example_ties_store \<noteq> []"
    by (simp add: example_ties_store_eq)
  have a: "\<forall>t \<in> set (transactions example_ties_store). fge (amount t) (Fin 0)"
    by (simp add: example_ties_store_eq)
  have v: "map_sum id (map (\<lambda>e. (cs_category e, cs_total e)))
        (summary_list (transactions example_ties_store))
       = Inr [(''Rent'', Fin 100), (''Travel'', Fin 100), (''Food'', Fin 50)]"
    unfolding example_ties_store_eq by code_simp
  obtain s' summary rest where
    "get_summary example_ties_store =
       Inr (s', 200, JObj ((''summary'', JList (map cat_summary_json summary)) # rest))"
    using summary_sorted [OF r n a] by blast
  then have "jget (snd (snd (projr (get_summary example_ties_store)))) ''summary'' \<noteq> None"
    by (simp add: jget_def)
  then show ?thesis
    using r n a v by (simp add: list_all_iff)
qed


section \<open>Properties of the insights\<close>

lemma category_totals_fold:
  "category_totals_of ts =
     foldl (\<lambda>kvs t. update_entry (category t) (Fin 0) (\<lambda>a. fadd a (amount t)) kvs) [] ts"
  by (simp add: category_totals_of_def)

lemma category_counts_fold:
  "category_counts_of ts =
     foldl (\<lambda>kvs t. update_entry (category t) 0 (\<lambda>n. Suc n) kvs) [] ts"
  by (simp add: category_counts_of_def)

lemma category_totals_length:
  "length (category_totals_of ts) = card (category ` set ts)"
proof -
  have "distinct (map fst (category_totals_of ts))"
    unfolding category_totals_fold by (rule distinct_grouped) simp
  moreover have "set (map fst (category_totals_of ts)) = category ` set ts"
    unfolding category_totals_fold using keys_grouped [of category "Fin 0" _ "[]" ts] by simp
  ultimately show ?thesis
    by (metis distinct_card length_map)
qed

lemma category_counts_nonempty: "ts \<noteq> [] \<Longrightarrow> category_counts_of ts \<noteq> []"
proof -
  assume "ts \<noteq> []"
  then have "category ` set ts \<noteq> {}" by simp
  moreover have "fst ` set (category_counts_of ts) = category ` set ts"
    unfolding category_counts_fold using keys_grouped [of category 0 _ "[]" ts] by simp
  ultimately show ?thesis by auto
qed

lemma category_totals_nonempty: "ts \<noteq> [] \<Longrightarrow> category_totals_of ts \<noteq> []"
proof -
  assume "ts \<noteq> []"
  then have "category ` set ts \<noteq> {}" by simp
  moreover have "fst ` set (category_totals_of ts) = category ` set ts"
    unfolding category_totals_fold using keys_grouped [of category "Fin 0" _ "[]" ts] by simp
  ultimately show ?thesis by auto
qed

text \<open>
  When the sum of the category totals is not zero, the handler returns, in this order,
  the highest-spend, average and most-frequent insights, then the lowest-spend insight
  if and only if there is more than one category, then the high-value insight if
  and only if some amount is greater than twice the average.
\<close>

lemma insights_structure:
  assumes "txns \<noteq> []"
      and "fsum (map snd (category_totals_of txns)) \<noteq> Fin 0"
  shows "\<exists>top pct avg freq low.
           fdiv (fsum (map amount txns)) (float_of_nat (length txns)) = Inr avg
           \<and> py_max_key fgt snd (category_totals_of txns) = Inr top
           \<and> py_max_key (>) snd (category_counts_of txns) = Inr freq
           \<and> (1 < card (category ` set txns) \<longrightarrow>
                 py_min_key flt snd (category_totals_of txns) = Inr low)
           \<and> get_insights txns =
               Inr (200,
                 [HighestSpend (fst top) (snd top) pct,
                  AverageValue avg (length txns),
                  MostFrequent (fst freq) (snd freq)]
                 @ (if 1 < card (category ` set txns) then [LowestSpend (fst low) (snd low)]
                    else [])
                 @ (if list_ex (\<lambda>t. fgt (amount t) (fmul avg (Fin 2))) txns
                    then [HighValue
                            (length (filter (\<lambda>t. fgt (amount t) (fmul avg (Fin 2))) txns))
                            (fmul avg (Fin 2))]
                    else []))"
proof -
  obtain top where top: "py_max_key fgt snd (category_totals_of txns) = Inr top"
    using category_totals_nonempty [OF assms(1)]
    by (cases "category_totals_of txns") (auto simp: py_max_key_def)
  obtain low where low: "py_min_key flt snd (category_totals_of txns) = Inr low"
    using category_totals_nonempty [OF assms(1)]
    by (cases "category_totals_of txns") (auto simp: py_min_key_def)
  obtain freq where freq: "py_max_key (>) snd (category_counts_of txns) = Inr freq"
    using category_counts_nonempty [OF assms(1)]
    by (cases "category_counts_of txns") (auto simp: py_max_key_def)
  obtain q where q: "fdiv (snd top) (fsum (map snd (category_totals_of txns))) = Inr q"
    using fdiv_nonzero [OF assms(2)] by blast
  obtain avg where avg: "fdiv (fsum (map amount txns)) (float_of_nat (length txns)) = Inr avg"
    using fdiv_nonzero [OF float_of_nat_nonzero, of "length txns"] assms(1) by auto
  have f: "(filter (\<lambda>t. fgt (amount t) (fmul avg (Fin 2))) txns \<noteq> [])
             = list_ex (\<lambda>t. fgt (amount t) (fmul avg (Fin 2))) txns"
    by (simp add: filter_empty_conv list_ex_iff)
  have "get_insights txns =
               Inr (200,
                 [HighestSpend (fst top) (snd top) (fmul q (Fin 100)),
                  AverageValue avg (length txns),
                  MostFrequent (fst freq) (snd freq)]
                 @ (if 1 < card (category ` set txns) then [LowestSpend (fst low) (snd low)]
                    else [])
                 @ (if list_ex (\<lambda>t. fgt (amount t) (fmul avg (Fin 2))) txns
                    then [HighValue
                            (length (filter (\<lambda>t. fgt (amount t) (fmul avg (Fin 2))) txns))
                            (fmul avg (Fin 2))]
                    else []))"
    using assms(1) category_totals_nonempty [OF assms(1)]
    by (simp add: get_insights_def Let_def top low freq q avg f category_totals_length)
  then show ?thesis
    using top low freq avg by blast
qed

text \<open>
  C10. The insight handler divides the largest category total by the sum of the totals
  without a guard. A transaction of amount zero is accepted by the upload, and on a
  store whose amounts are all zero that sum is zero: the division raises
  \<^verbatim>\<open>ZeroDivisionError\<close>.
\<close>

theorem insight_divides_by_zero:
  "upload_transactions no_repr init_store
     (Some (JList [record_of 1 (JInt 0) ''Food'' ''2025-01-05'']))
   = (\<lparr>transactions =
         [\<lparr>txn_id = JInt 1, amount = Fin 0, category = ''Food'', date = ''2025-01-05''\<rparr>],
       cache = Map.empty\<rparr>,
      (200, UploadOk 1 {''Food''}))
   \<and> fdiv (Fin 0)
        (fsum (map snd (category_totals_of
           [\<lparr>txn_id = JInt 1, amount = Fin 0, category = ''Food'', date = ''2025-01-05''\<rparr>])))
       = Inl ZeroDivisionError
   \<and> get_insights
        [\<lparr>txn_id = JInt 1, amount = Fin 0, category = ''Food'', date = ''2025-01-05''\<rparr>]
       = Inl ZeroDivisionError"
proof -
  have "validate_loop no_repr 0 [] [record_of 1 (JInt 0) ''Food'' ''2025-01-05'']
          = Inr [\<lparr>txn_id = JInt 1, amount = Fin 0, category = ''Food'', date = ''2025-01-05''\<rparr>]"
    by code_simp
  then have "upload_transactions no_repr init_store
     (Some (JList [record_of 1 (JInt 0) ''Food'' ''2025-01-05'']))
   = (\<lparr>transactions =
         [\<lparr>txn_id = JInt 1, amount = Fin 0, category = ''Food'', date = ''2025-01-05''\<rparr>],
       cache = Map.empty\<rparr>,
      (200, UploadOk 1 {''Food''}))"
    by (simp add: upload_transactions_def truthy_def is_list_def elems_def clear_cache_def
        init_store_def)
  moreover have "fdiv (Fin 0)
        (fsum (map snd (category_totals_of
           [\<lparr>txn_id = JInt 1, amount = Fin 0, category = ''Food'', date = ''2025-01-05''\<rparr>])))
       = Inl ZeroDivisionError"
    by code_simp
  moreover have "get_insights
        [\<lparr>txn_id = JInt 1, amount = Fin 0, category = ''Food'', date = ''2025-01-05''\<rparr>]
       = Inl ZeroDivisionError"
    by code_simp
  ultimately show ?thesis by simp
qed

theorem insight_divides_by_zero_witness:
  "isl (get_insights
        [\<lparr>txn_id = JInt 1, amount = Fin 0, category = ''Food'', date = ''2025-01-05''\<rparr>])"
  using insight_divides_by_zero by simp

text \<open>
  C9. On a list that is not empty the first sentence needs the share of the largest
  category in the sum of the category totals. With two categories whose amounts are all
  zero that sum is zero, the handler raises and no insight is returned, although the
  list is not empty.
\<close>

theorem insights_fail_on_zero_total:
  "get_insights
     [\<lparr>txn_id = JInt 1, amount = Fin 0, category = ''Food'', date = ''2025-01-05''\<rparr>,
      \<lparr>txn_id = JInt 2, amount = Fin 0, category = ''Travel'', date = ''2025-02-10''\<rparr>]
   = Inl ZeroDivisionError"
  by code_simp

theorem insights_fail_on_zero_total_witness:
  "get_insights
     [\<lparr>txn_id = JInt 1, amount = Fin 0, category = ''Food'', date = ''2025-01-05''\<rparr>,
      \<lparr>txn_id = JInt 2, amount = Fin 0, category = ''Travel'', date = ''2025-02-10''\<rparr>]
   \<noteq> Inr (200, [])"
  using insights_fail_on_zero_total by simp


end
